theory Spec2Isabelle
  imports Main "HOL-Library.Word" "HOL-Library.Signed_Division" "HOL-Library.Multiset"
begin

section \<open>Proxy rotation (package proxy)\<close>

text \<open>
  The rotator of the proxy package:
  \<^verbatim>\<open>
  type ProxyRotator struct {
      proxies []string
      current uint32
  }
  func NewProxyRotator(proxies []string) *ProxyRotator {
      return &ProxyRotator{proxies: proxies}
  }
  func (p *ProxyRotator) Next() string {
      if len(p.proxies) == 0 {
          return ""
      }
      n := atomic.AddUint32(&p.current, 1)
      return p.proxies[(int(n)-1)%len(p.proxies)]
  }
  \<close>
  The counter is a \<open>32 word\<close>, so the atomic increment wraps. \<open>int(n)\<close> is Go's
  platform integer, 64 bits wide on the platforms the tool is built for: the
  conversion keeps the unsigned value (\<open>uint n\<close>), and \<open>int(n) - 1\<close> lies between
  \<open>-1\<close> and \<open>2^32 - 2\<close>, so it cannot overflow and is computed on \<open>int\<close>. Go's
  \<open>%\<close> truncates towards zero; that is \<open>smod\<close>. Indexing a slice out of range
  panics, which is a value of the model. The atomic add has happened before the
  slice is indexed, so a panicking call leaves the counter advanced.
  Concurrent callers are ordered by their atomic adds: the i-th call is the one
  whose add is the i-th.
\<close>

record ProxyRotator =
  proxies :: "string list"
  current :: "32 word"

datatype panic = IndexOutOfRange

definition NewProxyRotator :: "string list \<Rightarrow> ProxyRotator" where
  "NewProxyRotator ps = \<lparr>proxies = ps, current = 0\<rparr>"

definition Next :: "ProxyRotator \<Rightarrow> (panic + string) \<times> ProxyRotator" where
  "Next p =
     (if length (proxies p) = 0 then (Inr '''', p)
      else
        let n = current p + 1;
            p' = p\<lparr>current := n\<rparr>;
            idx = (uint n - 1) smod int (length (proxies p))
        in if 0 \<le> idx \<and> idx < int (length (proxies p))
           then (Inr (proxies p ! nat idx), p')
           else (Inl IndexOutOfRange, p'))"

text \<open>
  \<open>K\<close> calls one after another on the same rotator, with their results in call
  order: entry \<open>i - 1\<close> of the list is what the i-th call returned.
\<close>

fun Next_calls :: "nat \<Rightarrow> ProxyRotator \<Rightarrow> (panic + string) list" where
  "Next_calls 0 p = []"
| "Next_calls (Suc k) p = fst (Next p) # Next_calls k (snd (Next p))"

text \<open>The rotator as \<open>k\<close> calls leave it.\<close>

fun Next_state :: "nat \<Rightarrow> ProxyRotator \<Rightarrow> ProxyRotator" where
  "Next_state 0 p = p"
| "Next_state (Suc k) p = Next_state k (snd (Next p))"

subsection \<open>The client a rotator builds\<close>

text \<open>
  \<^verbatim>\<open>
  Dial: func(addr string) (net.Conn, error) {
      proxy := p.Next()
      if proxy == "" {
          return nil, fmt.Errorf("proxy address is empty")
      }
      return fasthttpproxy.FasthttpSocksDialer("socks5://" + proxy)(addr)
  }
  \<close>
  The program has two clients: the one \<open>GetClient\<close> builds, whose dialer is the
  function above, and the plain \<open>&fasthttp.Client{}\<close> of a run without a proxy
  list. fasthttpproxy is a library the repository imports, so what
  \<open>FasthttpSocksDialer(url)(addr)\<close> does is a parameter of the dialer: it may
  return an error, tunnel through the proxy, or connect in any other way,
  directly included. A dial of the rotator's client either panics (inside
  \<open>Next\<close>), returns the dialer's own error, or is whatever that library call
  makes of the proxy and the address.
\<close>

datatype client = DirectClient | ProxyClient ProxyRotator

datatype dial = Panicked panic | DialErr string | ViaSocks string string | Direct string

definition GetClient :: "ProxyRotator \<Rightarrow> client" where
  "GetClient p = ProxyClient p"

definition Dial ::
  "(string \<Rightarrow> string \<Rightarrow> dial) \<Rightarrow> ProxyRotator \<Rightarrow> string \<Rightarrow> dial \<times> ProxyRotator" where
  "Dial FasthttpSocksDialer p addr =
     (case Next p of
        (Inl e, p') \<Rightarrow> (Panicked e, p')
      | (Inr proxy, p') \<Rightarrow>
          if proxy = '''' then (DialErr ''proxy address is empty'', p')
          else (FasthttpSocksDialer (''socks5://'' @ proxy) addr, p'))"

section \<open>Proxy validation (package proxy)\<close>

text \<open>
  \<^verbatim>\<open>
  func ValidateProxies(proxies []string) (validProxiesSl, invalidProxiesSl []string) {
      validProxies := make(chan string, len(proxies))
      invalidProxies := make(chan string, len(proxies))
      timeout := 5 * time.Second

      wg := &sync.WaitGroup{}
      wg.Add(len(proxies))

      for _, proxy := range proxies {
          go func(proxy string, timeout time.Duration) {
              defer wg.Done()
              if testProxy(proxy, timeout) { validProxies <- proxy }
              else { invalidProxies <- proxy }
          }(proxy, timeout)
      }

      wg.Wait()
      close(validProxies); close(invalidProxies)
      for proxy := range validProxies { validProxiesSl = append(validProxiesSl, proxy) }
      for proxy := range invalidProxies { invalidProxiesSl = append(invalidProxiesSl, proxy) }
      return validProxiesSl, invalidProxiesSl
  }
  func testProxy(proxy string, timeout time.Duration) bool {
      conn, err := net.DialTimeout("tcp", proxy, timeout)
      if err != nil { return false }
      conn.Close()
      return true
  }
  \<close>
  The state of a validation is the counter of the wait group, the contents of the
  two channels, and for each goroutine the number of steps it has taken. A
  goroutine has two steps: first the connect attempt and the send of its address
  on one of the channels (both have room for every address, so the send never
  waits), then the deferred \<open>wg.Done()\<close>, which decrements the counter.
  \<open>wg.Add(len(proxies))\<close> sets the counter before any goroutine runs.

  The network is a parameter: \<open>net i a\<close> says whether the one connect attempt
  that the i-th goroutine makes to address \<open>a\<close> returns without an error within
  the timeout. The scheduler is a parameter too: a schedule names, step by step,
  the goroutine that moves (a goroutine that has returned does not move again).
\<close>

record validation =
  wg :: nat
  validProxies :: "string list"
  invalidProxies :: "string list"
  probes :: "nat list"

definition testProxy :: "(string \<Rightarrow> bool) \<Rightarrow> string \<Rightarrow> bool" where
  "testProxy DialTimeout proxy = (if \<not> DialTimeout proxy then False else True)"

definition spawn_probes :: "string list \<Rightarrow> validation" where
  "spawn_probes ps =
     \<lparr>wg = length ps, validProxies = [], invalidProxies = [],
      probes = replicate (length ps) 0\<rparr>"

definition probe ::
  "(nat \<Rightarrow> string \<Rightarrow> bool) \<Rightarrow> string list \<Rightarrow> validation \<Rightarrow> nat \<Rightarrow> validation" where
  "probe net ps v i =
     (if i < length ps \<and> i < length (probes v) then
        (if probes v ! i = 0 then
           (if testProxy (net i) (ps ! i)
            then v\<lparr>validProxies := validProxies v @ [ps ! i], probes := (probes v)[i := 1]\<rparr>
            else v\<lparr>invalidProxies := invalidProxies v @ [ps ! i],
                   probes := (probes v)[i := 1]\<rparr>)
         else if probes v ! i = 1 then v\<lparr>wg := wg v - 1, probes := (probes v)[i := 2]\<rparr>
         else v)
      else v)"

text \<open>
  \<open>wg.Wait()\<close> returns when the counter is 0; only then are the channels closed
  and read out, in the order of the sends. \<open>None\<close> is a validation that is
  still in \<open>wg.Wait()\<close> when the schedule ends.
\<close>

definition ValidateProxies ::
  "(nat \<Rightarrow> string \<Rightarrow> bool) \<Rightarrow> nat list \<Rightarrow> string list \<Rightarrow> (string list \<times> string list) option"
  where
  "ValidateProxies net sched ps =
     (let v = foldl (probe net ps) (spawn_probes ps) sched
      in if wg v = 0 then Some (validProxies v, invalidProxies v) else None)"

text \<open>
  What the state of a validation always satisfies: the counter is the number of
  goroutines that have not called \<open>wg.Done()\<close>, and the channels hold the
  addresses of the goroutines that have sent, the succeeding ones on the one and
  the failing ones on the other.
\<close>

definition probes_ok :: "(nat \<Rightarrow> string \<Rightarrow> bool) \<Rightarrow> string list \<Rightarrow> validation \<Rightarrow> bool" where
  "probes_ok net ps v \<longleftrightarrow>
     length (probes v) = length ps \<and>
     wg v = length (filter (\<lambda>pc. pc < 2) (probes v)) \<and>
     mset (validProxies v) =
       mset (map ((!) ps) (filter (\<lambda>i. 0 < probes v ! i \<and> net i (ps ! i)) [0..<length ps])) \<and>
     mset (invalidProxies v) =
       mset (map ((!) ps) (filter (\<lambda>i. 0 < probes v ! i \<and> \<not> net i (ps ! i)) [0..<length ps]))"

section \<open>Start-up (package main)\<close>

text \<open>
  The flags of the command line, and the world \<open>main\<close> starts in: the library
  functions it calls (\<open>strings.ToUpper\<close>, \<open>strings.TrimSpace\<close>,
  \<open>zerolog.ParseLevel\<close>, \<open>url.Parse\<close>; for the last two only whether they
  return an error matters), the files it reads (the lines \<open>bufio.Scanner\<close>
  yields and whether \<open>scanner.Err()\<close> is nil at the end, or nothing when
  \<open>os.Open\<close> fails), the network and the scheduling of the proxy validation,
  and the runtime's \<open>make\<close> of a channel (whether it returns for elements of
  the given size in bytes and the given capacity; it panics with "makechan: size
  out of range" otherwise). Durations and Go's \<open>int\<close> are 64-bit words read as
  signed.
\<close>

record flags =
  printVersion :: bool
  targetURL :: string
  method_name :: string
  delayBetweenRequests :: "64 word"
  maxGoroutines :: "64 word"
  logLevel :: string
  userAgentsListFile :: string
  proxyList :: string

record world =
  ToUpper :: "string \<Rightarrow> string"
  TrimSpace :: "string \<Rightarrow> string"
  ParseLevel :: "string \<Rightarrow> bool"
  url_Parse :: "string \<Rightarrow> bool"
  scan_file :: "string \<Rightarrow> (string list \<times> bool) option"
  DialTimeout :: "nat \<Rightarrow> string \<Rightarrow> bool"
  probe_order :: "nat list"
  makechan :: "nat \<Rightarrow> nat \<Rightarrow> bool"

text \<open>
  \<^verbatim>\<open>
  func ReadFileEntries(filePath string) (entries []string, e error) {
      file, err := os.Open(filePath)
      if err != nil { return nil, err }
      defer file.Close()
      scanner := bufio.NewScanner(file)
      for scanner.Scan() {
          line := strings.TrimSpace(scanner.Text())
          if line != "" { entries = append(entries, line) }
      }
      if err := scanner.Err(); err != nil { return nil, err }
      return entries, nil
  }
  \<close>
\<close>

datatype file_error = OpenFailed | ScanFailed

definition ReadFileEntries :: "world \<Rightarrow> string \<Rightarrow> file_error + string list" where
  "ReadFileEntries w filePath =
     (case scan_file w filePath of
        None \<Rightarrow> Inl OpenFailed
      | Some (lines, scanned) \<Rightarrow>
          if \<not> scanned then Inl ScanFailed
          else Inr (filter (\<lambda>line. line \<noteq> '''') (map (TrimSpace w) lines)))"

text \<open>
  Modelled from the spec: the values of fasthttp's method constants
  (\<open>fasthttp.MethodGet\<close> and the others of \<open>allowedHTTPMethods\<close>), which the
  repository imports and does not define; the spec lists them as
  GET/POST/PUT/PATCH/DELETE/HEAD/OPTIONS/CONNECT/TRACE.
\<close>

definition allowedHTTPMethods :: "string list" where
  "allowedHTTPMethods =
     [''GET'', ''POST'', ''PUT'', ''PATCH'', ''DELETE'', ''HEAD'', ''OPTIONS'', ''CONNECT'',
      ''TRACE'']"

text \<open>
  \<open>main\<close> up to the point where the dispatch goroutine is started. It ends in one
  of these ways: the version was printed and \<open>main\<close> returned; a
  \<open>log.Fatal()\<close> event was sent, which exits the process with status 1 (the
  message is kept); \<open>main\<close> is still waiting for the proxy validation; a
  \<open>make\<close> of one of the two channels panicked; or the dispatch loop starts, with
  the client, the capacity of the admission channel and the user agents read
  from the file. The steps are in the order of the source: log level, user agent
  file, proxy file and validation, \<open>url.Parse\<close>, the \<open>switch\<close> over the four
  checks, whose first true case is the one that fires, and then
  \<^verbatim>\<open>
  sem := make(chan struct{}, *maxGoroutines)
  respChan := make(chan *Result, *maxGoroutines)
  \<close>
  with elements of 0 and of 8 bytes (a pointer).

  The validation runs under the schedule the world chooses, and the scheduler is
  fair: after it every goroutine that has not returned still gets its two steps
  (each probe returns within its timeout).
\<close>

datatype startup =
  VersionPrinted | Fatal string | StillValidating | MakechanPanic
  | DispatchLoop client nat "string list"

definition main_startup :: "world \<Rightarrow> flags \<Rightarrow> startup" where
  "main_startup w f =
     (if printVersion f then VersionPrinted
      else
        let m = ToUpper w (method_name f) in
        if \<not> ParseLevel w (logLevel f) then Fatal ''''
        else
          case (if userAgentsListFile f \<noteq> '''' then ReadFileEntries w (userAgentsListFile f)
                else Inr []) of
            Inl e \<Rightarrow> Fatal ''Failed to read user agent list''
          | Inr userAgentList \<Rightarrow>
              (case (if proxyList f \<noteq> ''''
                     then (case ReadFileEntries w (proxyList f) of
                             Inl e \<Rightarrow> Inl (Fatal ''Failed to read proxy list'')
                           | Inr ps \<Rightarrow>
                               (case ValidateProxies (DialTimeout w)
                                       (probe_order w @ [0..<length ps] @ [0..<length ps]) ps of
                                  None \<Rightarrow> Inl StillValidating
                                | Some (valid, invalid) \<Rightarrow>
                                    Inr (GetClient (NewProxyRotator valid))))
                     else Inr DirectClient) of
                 Inl stopped \<Rightarrow> stopped
               | Inr c \<Rightarrow>
                   if \<not> url_Parse w (targetURL f) then Fatal ''Invalid targetURL''
                   else if targetURL f = '''' then Fatal ''targetURL is required''
                   else if sint (delayBetweenRequests f) < 0
                     then Fatal ''delayBetweenRequests must be non-negative''
                   else if sint (maxGoroutines f) < 1
                     then Fatal ''maxGoroutines must be at least 1''
                   else if m \<notin> set allowedHTTPMethods then Fatal ''invalid HTTP method''
                   else if \<not> makechan w 0 (nat (sint (maxGoroutines f))) then MakechanPanic
                   else if \<not> makechan w 8 (nat (sint (maxGoroutines f))) then MakechanPanic
                   else DispatchLoop c (nat (sint (maxGoroutines f))) userAgentList))"

text \<open>
  The configurations C8 is about: an empty or unparsable target URL, a method that
  after upper-casing is not one of the allowed ones, a concurrency bound below 1,
  a negative delay.
\<close>

definition bad_configuration :: "world \<Rightarrow> flags \<Rightarrow> bool" where
  "bad_configuration w f \<longleftrightarrow>
     targetURL f = '''' \<or> \<not> url_Parse w (targetURL f) \<or>
     ToUpper w (method_name f) \<notin> set allowedHTTPMethods \<or>
     sint (maxGoroutines f) < 1 \<or> sint (delayBetweenRequests f) < 0"

text \<open>
  A world and two command lines to run the start-up on: upper-casing of ASCII
  letters, a proxy file of two addresses and a blank line, a network on which no
  proxy answers, channels of up to \<open>2^48\<close> bytes.
\<close>

definition ascii_upper :: "char \<Rightarrow> char" where
  "ascii_upper c =
     (let n = of_char c :: nat in if 97 \<le> n \<and> n \<le> 122 then char_of (n - 32) else c)"

definition example_world :: world where
  "example_world =
     \<lparr>ToUpper = map ascii_upper,
      TrimSpace = (\<lambda>s. s),
      ParseLevel = (\<lambda>l. l \<in> set [''debug'', ''info'', ''warn'', ''error'']),
      url_Parse = (\<lambda>u. u \<noteq> '':''),
      scan_file = (\<lambda>path. if path = ''proxies.txt''
                           then Some ([''127.0.0.1:4145'', '''', ''127.0.0.1:1080''], True)
                           else None),
      DialTimeout = (\<lambda>i a. False),
      probe_order = [1, 0],
      makechan = (\<lambda>elem n. elem * n < 2 ^ 48)\<rparr>"

definition example_flags :: flags where
  "example_flags =
     \<lparr>printVersion = False, targetURL = ''http://localhost:8080'', method_name = ''get'',
      delayBetweenRequests = 0, maxGoroutines = 10, logLevel = ''info'',
      userAgentsListFile = '''', proxyList = ''proxies.txt''\<rparr>"

section \<open>Requests and their outcomes (package main)\<close>

text \<open>
  \<^verbatim>\<open>
  type Result struct {
      status   int
      err      error
      duration time.Duration
  }
  \<close>
  The error is kept as its message, \<open>None\<close> for nil; a duration is an int64 of
  nanoseconds.
\<close>

record Result =
  status :: int
  err :: "string option"
  duration :: "64 word"

text \<open>
  The part of \<open>sendRequest\<close> that makes the outcome:
  \<^verbatim>\<open>
  resp := fasthttp.AcquireResponse()
  err := client.DoTimeout(req, resp, requestTimeout)
  res := &Result{
      status:   resp.StatusCode(),
      duration: time.Since(start),
      err:      err,
  }
  \<close>
  fasthttp is a library the repository imports, so its response type and the two
  functions that touch it are parameters: the response \<open>AcquireResponse\<close> hands
  out, and what \<open>StatusCode\<close> reports of a response. An attempt either produces
  no response, and then \<open>DoTimeout\<close> returns its error and leaves the acquired
  response as it was, or it fills the response in (and may still return an
  error). The elapsed time is what \<open>time.Since(start)\<close> measures.
\<close>

record 'resp fasthttp =
  AcquireResponse :: 'resp
  StatusCode :: "'resp \<Rightarrow> int"

datatype 'resp attempt = NoResponse string | Responded 'resp "string option"

definition DoTimeout :: "'resp attempt \<Rightarrow> 'resp \<Rightarrow> 'resp \<times> string option" where
  "DoTimeout a resp = (case a of NoResponse e \<Rightarrow> (resp, Some e) | Responded r e \<Rightarrow> (r, e))"

definition sendRequest_result :: "'resp fasthttp \<Rightarrow> 'resp attempt \<Rightarrow> 64 word \<Rightarrow> Result" where
  "sendRequest_result lib a elapsed =
     (let resp = AcquireResponse lib;
          (resp', e) = DoTimeout a resp
      in \<lparr>status = StatusCode lib resp', err = e, duration = elapsed\<rparr>)"

text \<open>
  The library as fasthttp has it, with a response reduced to the status field of
  its header: a response from the pool has the field 0, and the accessor reports
  200 (\<open>StatusOK\<close>) for a field that is 0.
\<close>

definition fasthttp_lib :: "int fasthttp" where
  "fasthttp_lib = \<lparr>AcquireResponse = 0, StatusCode = (\<lambda>code. if code = 0 then 200 else code)\<rparr>"

section \<open>The dispatch loop and the senders (package main)\<close>

text \<open>
  The goroutines of a run meet at two buffered channels of capacity
  \<open>*maxGoroutines\<close> and at the cancellation signal:
  \<^verbatim>\<open>
  sem := make(chan struct{}, *maxGoroutines)
  respChan := make(chan *Result, *maxGoroutines)
  ctx, cancel := signal.NotifyContext(context.Background(), os.Interrupt)
  \<close>
  The state of a run is what these hold, and where each spawned \<open>sendRequest\<close>
  is: making its request, at the \<open>select\<close> that reports its outcome, at the
  deferred \<open>select\<close> that gives the slot back, or gone (having taken a token
  out of \<open>sem\<close> or not). \<open>handed\<close> are the outcomes the loop has received and
  started a \<open>processResponse\<close> goroutine for.
\<close>

datatype sender = Requesting | Reporting Result | Releasing | Exited bool

record sys =
  sem :: nat
  respChan :: "Result list"
  ctx_done :: bool
  senders :: "sender list"
  dispatching :: bool
  handed :: "Result list"

text \<open>
  One event is one channel operation or one case of a \<open>select\<close>, and the
  goroutines interleave freely. An event fires only when its operation is ready;
  \<open>None\<close> means the goroutine would have to wait there.
  \<^item> \<open>Admit\<close>: the loop's \<^verbatim>\<open>case sem <- struct{}{}: go sendRequest(...)\<close>, ready
    while \<open>sem\<close> has room.
  \<^item> \<open>Respond i r\<close>: \<open>DoTimeout\<close> of sender \<open>i\<close> has returned and \<open>r\<close> is built.
  \<^item> \<open>Deliver i\<close> and \<open>Drop i\<close>: the two cases of
    \<^verbatim>\<open>select { case respChan <- res: case <-ctx.Done(): }\<close>.
  \<^item> \<open>Release i\<close> and \<open>Abandon i\<close>: the two cases of the deferred
    \<^verbatim>\<open>select { case <-sem: case <-ctx.Done(): return }\<close>.
  \<^item> \<open>Cancel\<close>: the interrupt, or \<open>cancel()\<close> when the execution timer fires.
  \<^item> \<open>Drain\<close>: the loop's \<^verbatim>\<open>case res := <-respChan\<close>.
  \<^item> \<open>Return\<close>: the loop's \<^verbatim>\<open>case <-ctx.Done(): return\<close>.
  The loop's outer \<open>select\<close> prefers its other cases to \<open>default\<close>; the model
  lets \<open>Admit\<close> fire whenever the channel has room, which only adds runs.
\<close>

datatype event =
  Admit | Respond nat Result | Deliver nat | Drop nat | Release nat | Abandon nat
  | Cancel | Drain | Return

fun fire :: "nat \<Rightarrow> event \<Rightarrow> sys \<Rightarrow> sys option" where
  "fire C Admit s =
     (if dispatching s \<and> sem s < C
      then Some (s\<lparr>sem := sem s + 1, senders := senders s @ [Requesting]\<rparr>)
      else None)"
| "fire C (Respond i r) s =
     (if i < length (senders s) \<and> senders s ! i = Requesting
      then Some (s\<lparr>senders := (senders s)[i := Reporting r]\<rparr>)
      else None)"
| "fire C (Deliver i) s =
     (if i < length (senders s) then
        (case senders s ! i of
           Reporting r \<Rightarrow>
             if length (respChan s) < C
             then Some (s\<lparr>respChan := respChan s @ [r],
                          senders := (senders s)[i := Releasing]\<rparr>)
             else None
         | _ \<Rightarrow> None)
      else None)"
| "fire C (Drop i) s =
     (if i < length (senders s) then
        (case senders s ! i of
           Reporting r \<Rightarrow>
             if ctx_done s then Some (s\<lparr>senders := (senders s)[i := Releasing]\<rparr>) else None
         | _ \<Rightarrow> None)
      else None)"
| "fire C (Release i) s =
     (if i < length (senders s) \<and> senders s ! i = Releasing \<and> 0 < sem s
      then Some (s\<lparr>sem := sem s - 1, senders := (senders s)[i := Exited True]\<rparr>)
      else None)"
| "fire C (Abandon i) s =
     (if i < length (senders s) \<and> senders s ! i = Releasing \<and> ctx_done s
      then Some (s\<lparr>senders := (senders s)[i := Exited False]\<rparr>)
      else None)"
| "fire C Cancel s = Some (s\<lparr>ctx_done := True\<rparr>)"
| "fire C Drain s =
     (if dispatching s then
        (case respChan s of
           [] \<Rightarrow> None
         | r # rest \<Rightarrow> Some (s\<lparr>respChan := rest, handed := handed s @ [r]\<rparr>))
      else None)"
| "fire C Return s =
     (if dispatching s \<and> ctx_done s then Some (s\<lparr>dispatching := False\<rparr>) else None)"

fun run :: "nat \<Rightarrow> event list \<Rightarrow> sys \<Rightarrow> sys option" where
  "run C [] s = Some s"
| "run C (e # es) s = (case fire C e s of None \<Rightarrow> None | Some s' \<Rightarrow> run C es s')"

definition start :: sys where
  "start = \<lparr>sem = 0, respChan = [], ctx_done = False, senders = [], dispatching = True,
            handed = []\<rparr>"

text \<open>
  The senders that are still running, and the senders that have not taken a
  token out of \<open>sem\<close>.
\<close>

fun running :: "sender \<Rightarrow> bool" where
  "running (Exited b) = False"
| "running _ = True"

fun holds_slot :: "sender \<Rightarrow> bool" where
  "holds_slot (Exited b) = (\<not> b)"
| "holds_slot _ = True"

definition in_flight :: "sys \<Rightarrow> nat" where
  "in_flight s = length (filter running (senders s))"

definition slots_held :: "sys \<Rightarrow> nat" where
  "slots_held s = length (filter holds_slot (senders s))"

text \<open>An outcome to run the models on.\<close>

definition timed_out :: Result where
  "timed_out = \<lparr>status = 200, err = Some ''timeout'', duration = 10000000000\<rparr>"

text \<open>
  A run with one slot, stopped after the cancellation: the first sender has
  delivered its outcome and left, the second has its outcome ready, and the
  result channel is full because the loop has not drained it.
\<close>

definition shutdown_example :: sys where
  "shutdown_example =
     \<lparr>sem = 1, respChan = [timed_out], ctx_done = True,
      senders = [Exited True, Reporting timed_out], dispatching = True, handed = []\<rparr>"

section \<open>Aggregation (package main)\<close>

text \<open>
  \<^verbatim>\<open>
  var sentRequestCount, errCount, totalDuration int64

  func processResponse(res *Result, errCount, sentRequestsCount, totalDuration *int64,
          wg *sync.WaitGroup) {
      defer wg.Done()
      if res.err != nil {
          atomic.AddInt64(errCount, 1)
          ...
      }
      atomic.AddInt64(sentRequestsCount, 1)
      atomic.AddInt64(totalDuration, int64(res.duration))
      ...
  }
  \<close>
  The counters are 64-bit words, read as signed. One call is three atomic steps
  in this order: the error counter (if the outcome has an error), the sent
  counter, the duration. \<open>processResponse_step res pc\<close> is the step a call for
  \<open>res\<close> takes when it has taken \<open>pc\<close> steps.
\<close>

record Stats =
  errCount :: "64 word"
  sentRequestCount :: "64 word"
  totalDuration :: "64 word"

fun processResponse_step :: "Result \<Rightarrow> nat \<Rightarrow> Stats \<Rightarrow> Stats" where
  "processResponse_step res 0 st =
     (if err res \<noteq> None then st\<lparr>errCount := errCount st + 1\<rparr> else st)"
| "processResponse_step res (Suc 0) st = st\<lparr>sentRequestCount := sentRequestCount st + 1\<rparr>"
| "processResponse_step res (Suc (Suc 0)) st =
     st\<lparr>totalDuration := totalDuration st + duration res\<rparr>"
| "processResponse_step res (Suc (Suc (Suc pc))) st = st"

definition processResponse :: "Result \<Rightarrow> Stats \<Rightarrow> Stats" where
  "processResponse res st =
     processResponse_step res 2 (processResponse_step res 1 (processResponse_step res 0 st))"

text \<open>
  The loop starts one \<open>processResponse\<close> goroutine for each outcome it receives,
  and they run concurrently. A task is an outcome with the number of steps its
  goroutine has taken; a schedule names, step by step, the task that moves. A
  task that has taken its three steps has returned (\<open>wg.Done\<close>), and \<open>wg.Wait\<close>
  returns when all have.
\<close>

record aggregation =
  stats :: Stats
  tasks :: "(Result \<times> nat) list"

definition aggregate_step :: "aggregation \<Rightarrow> nat \<Rightarrow> aggregation" where
  "aggregate_step a i =
     (if i < length (tasks a) then
        (case tasks a ! i of
           (res, pc) \<Rightarrow>
             if pc < 3
             then \<lparr>stats = processResponse_step res pc (stats a),
                   tasks = (tasks a)[i := (res, pc + 1)]\<rparr>
             else a)
      else a)"

definition aggregate :: "Result list \<Rightarrow> nat list \<Rightarrow> aggregation" where
  "aggregate rs sched =
     foldl aggregate_step
       \<lparr>stats = \<lparr>errCount = 0, sentRequestCount = 0, totalDuration = 0\<rparr>,
        tasks = map (\<lambda>res. (res, 0)) rs\<rparr> sched"

definition joined :: "aggregation \<Rightarrow> bool" where
  "joined a = list_all (\<lambda>(res, pc). pc = 3) (tasks a)"

text \<open>
  The tasks that have counted their outcome's error and not yet the outcome
  itself.
\<close>

definition err_pending :: "aggregation \<Rightarrow> nat" where
  "err_pending a = length (filter (\<lambda>(res, pc). pc = 1 \<and> err res \<noteq> None) (tasks a))"

text \<open>
  What the tasks have added so far: the errors counted (tasks past their first
  step whose outcome has an error), the outcomes counted (tasks past their
  second step) and the durations added (of the tasks past their third).
\<close>

definition errs_counted :: "(Result \<times> nat) list \<Rightarrow> nat" where
  "errs_counted ts = length (filter (\<lambda>(res, pc). 1 \<le> pc \<and> err res \<noteq> None) ts)"

definition sent_counted :: "(Result \<times> nat) list \<Rightarrow> nat" where
  "sent_counted ts = length (filter (\<lambda>(res, pc). 2 \<le> pc) ts)"

definition duration_added :: "(Result \<times> nat) list \<Rightarrow> 64 word" where
  "duration_added ts = sum_list (map (\<lambda>(res, pc). if 3 \<le> pc then duration res else 0) ts)"

definition counters_agree :: "aggregation \<Rightarrow> bool" where
  "counters_agree a \<longleftrightarrow>
     errCount (stats a) = of_nat (errs_counted (tasks a)) \<and>
     sentRequestCount (stats a) = of_nat (sent_counted (tasks a)) \<and>
     totalDuration (stats a) = duration_added (tasks a)"

definition answered :: Result where
  "answered = \<lparr>status = 200, err = None, duration = 25000000\<rparr>"

section \<open>The final report (package main)\<close>




text \<open>
  What \<open>main\<close> waits for. The dispatch goroutine receives outcomes and starts a
  \<open>processResponse\<close> goroutine for each, after \<open>wg.Add(1)\<close>:
  \<^verbatim>\<open>
  case res := <-respChan:
      wg.Add(1)
      go processResponse(res, &errCount, &sentRequestCount, &totalDuration, wg)
  ...
  case <-ctx.Done():
      return
  \<close>
  and \<open>processResponse\<close> ends with its deferred \<open>wg.Done()\<close>, a fourth step
  after its three atomic adds. The state is the cancellation signal, whether the
  dispatch goroutine is still in its loop, the outcomes delivered on
  \<open>respChan\<close> and not yet received, the counter of the wait group, the three
  counters, the \<open>processResponse\<close> goroutines started so far (each an outcome
  with the number of steps taken), and where \<open>main\<close> is: at \<open><-ctx.Done()\<close>,
  at \<open>wg.Wait()\<close>, or past both, computing the report.
\<close>

datatype main_pc = AtCtxDone | AtWait | AtReport

record ending =
  ctx_cancelled :: bool
  loop_running :: bool
  delivered :: "Result list"
  wg_tasks :: nat
  counters :: Stats
  spawned :: "(Result \<times> nat) list"
  main_at :: main_pc

text \<open>
  The steps, interleaved freely; \<open>None\<close> is a step that is not ready.
  \<^item> \<open>Arrives r\<close>: a sender's \<^verbatim>\<open>respChan <- res\<close> (the capacity of the channel is
    left out, which only adds runs).
  \<^item> \<open>Cancels\<close>: the interrupt, or \<open>cancel()\<close> when the execution timer fires.
  \<^item> \<open>Receives\<close>: the loop's \<^verbatim>\<open>case res := <-respChan\<close> with \<open>wg.Add(1)\<close> and
    the \<open>go\<close> statement; it can be chosen after the cancellation as well as
    before, as long as the loop has not returned.
  \<^item> \<open>LoopReturns\<close>: the loop's \<^verbatim>\<open>case <-ctx.Done(): return\<close>.
  \<^item> \<open>TaskSteps i\<close>: the next step of the i-th \<open>processResponse\<close> goroutine.
  \<^item> \<open>MainCancelled\<close>: \<open>main\<close> gets past \<^verbatim>\<open><-ctx.Done()\<close>.
  \<^item> \<open>MainJoined\<close>: \<open>main\<close> gets past \<open>wg.Wait()\<close>, which needs the counter
    to be 0.
\<close>

datatype action =
  Arrives Result | Cancels | Receives | LoopReturns | TaskSteps nat | MainCancelled
  | MainJoined

fun act :: "action \<Rightarrow> ending \<Rightarrow> ending option" where
  "act (Arrives r) s = Some (s\<lparr>delivered := delivered s @ [r]\<rparr>)"
| "act Cancels s = Some (s\<lparr>ctx_cancelled := True\<rparr>)"
| "act Receives s =
     (if loop_running s then
        (case delivered s of
           [] \<Rightarrow> None
         | r # rest \<Rightarrow>
             Some (s\<lparr>delivered := rest, wg_tasks := wg_tasks s + 1,
                     spawned := spawned s @ [(r, 0)]\<rparr>))
      else None)"
| "act LoopReturns s =
     (if loop_running s \<and> ctx_cancelled s then Some (s\<lparr>loop_running := False\<rparr>) else None)"
| "act (TaskSteps i) s =
     (if i < length (spawned s) then
        (case spawned s ! i of
           (res, pc) \<Rightarrow>
             if pc < 3
             then Some (s\<lparr>counters := processResponse_step res pc (counters s),
                          spawned := (spawned s)[i := (res, pc + 1)]\<rparr>)
             else if pc = 3
             then Some (s\<lparr>wg_tasks := wg_tasks s - 1, spawned := (spawned s)[i := (res, 4)]\<rparr>)
             else None)
      else None)"
| "act MainCancelled s =
     (if main_at s = AtCtxDone \<and> ctx_cancelled s then Some (s\<lparr>main_at := AtWait\<rparr>) else None)"
| "act MainJoined s =
     (if main_at s = AtWait \<and> wg_tasks s = 0 then Some (s\<lparr>main_at := AtReport\<rparr>) else None)"

fun acts :: "action list \<Rightarrow> ending \<Rightarrow> ending option" where
  "acts [] s = Some s"
| "acts (a # as) s = (case act a s of None \<Rightarrow> None | Some s' \<Rightarrow> acts as s')"

definition ending_start :: ending where
  "ending_start =
     \<lparr>ctx_cancelled = False, loop_running = True, delivered = [], wg_tasks = 0,
      counters = \<lparr>errCount = 0, sentRequestCount = 0, totalDuration = 0\<rparr>,
      spawned = [], main_at = AtCtxDone\<rparr>"





section \<open>Properties of the rotator\<close>

lemma Next_nonempty:
  "proxies p \<noteq> [] \<Longrightarrow> snd (Next p) = p\<lparr>current := current p + 1\<rparr>"
  by (simp add: Next_def Let_def)

lemma Next_empty: "proxies p = [] \<Longrightarrow> Next p = (Inr '''', p)"
  by (simp add: Next_def)

lemma Next_state_nonempty:
  "proxies p \<noteq> [] \<Longrightarrow> Next_state k p = p\<lparr>current := current p + of_nat k\<rparr>"
proof (induction k arbitrary: p)
  case 0
  then show ?case by simp
next
  case (Suc k)
  have "proxies (snd (Next p)) \<noteq> []"
    using Suc.prems by (simp add: Next_nonempty)
  then have "Next_state k (snd (Next p)) =
      (snd (Next p))\<lparr>current := current (snd (Next p)) + of_nat k\<rparr>"
    by (rule Suc.IH)
  then show ?case
    using Suc.prems by (simp add: Next_nonempty add.assoc)
qed

lemma Next_state_empty: "proxies p = [] \<Longrightarrow> Next_state k p = p"
  by (induction k) (simp_all add: Next_empty)

lemma Next_calls_nth: "j < K \<Longrightarrow> Next_calls K p ! j = fst (Next (Next_state j p))"
proof (induction K arbitrary: p j)
  case 0
  then show ?case by simp
next
  case (Suc K)
  then show ?case by (cases j) simp_all
qed

lemma uint_of_nat_32: "uint (of_nat i :: 32 word) = int (i mod 2 ^ 32)"
  by (simp add: uint_nat unat_of_nat take_bit_eq_mod)

lemma Next_off_wrap:
  assumes "ps \<noteq> []" "Suc j mod 2 ^ 32 \<noteq> 0"
  shows "fst (Next \<lparr>proxies = ps, current = of_nat j\<rparr>) =
           Inr (ps ! ((j mod 2 ^ 32) mod length ps))"
proof -
  let ?m = "Suc j mod 2 ^ 32"
  have n: "uint (of_nat j + 1 :: 32 word) = int ?m"
    using uint_of_nat_32[of "Suc j"] by (simp add: add.commute)
  have m: "?m = Suc (j mod 2 ^ 32)"
    using assms(2) by (metis mod_Suc)
  then have m1: "int ?m - 1 = int (j mod 2 ^ 32)" by simp
  have idx: "int (j mod 2 ^ 32) smod int (length ps) = int ((j mod 2 ^ 32) mod length ps)"
    by (simp add: smod_int_alt_def zmod_int sgn_if)
  have full: "(uint (of_nat j + 1 :: 32 word) - 1) smod int (length ps) =
      int ((j mod 2 ^ 32) mod length ps)"
    by (simp only: n m1 idx)
  have lt: "(j mod 2 ^ 32) mod length ps < length ps" using assms(1) by simp
  show ?thesis
    using assms(1) lt by (simp add: Next_def Let_def full)
qed

lemma Next_single: "fst (Next \<lparr>proxies = [a], current = c\<rparr>) = Inr a"
  by (simp add: Next_def Let_def smod_int_alt_def)

lemma Next_at_wrap:
  "Next \<lparr>proxies = [''a'', ''b''], current = of_nat (2 ^ 32 - 1)\<rparr> =
     (Inl IndexOutOfRange, \<lparr>proxies = [''a'', ''b''], current = 0\<rparr>)"
  by (simp add: Next_def Let_def smod_int_alt_def)

lemma Next_state_two_before_wrap:
  "Next_state (2 ^ 32 - 1) (NewProxyRotator [''a'', ''b'']) =
     \<lparr>proxies = [''a'', ''b''], current = of_nat (2 ^ 32 - 1)\<rparr>"
  by (simp add: Next_state_nonempty NewProxyRotator_def)

text \<open>
  The rotation off the wrap. On a fresh rotator over \<open>N \<ge> 1\<close> proxies, every
  call whose number \<open>i\<close> is not a multiple of \<open>2^32\<close> returns
  \<open>list[((i-1) mod 2^32) mod N]\<close>, which is \<open>list[(i-1) mod N]\<close> for every
  \<open>i < 2^32\<close> and, when \<open>N\<close> divides \<open>2^32\<close>, for every such \<open>i\<close>; over a
  single proxy every call returns it.
\<close>

lemma round_robin_off_wrap:
  assumes "ps \<noteq> []" "i \<le> K" "i mod 2 ^ 32 \<noteq> 0"
  shows "Next_calls K (NewProxyRotator ps) ! (i - 1) =
           Inr (ps ! (((i - 1) mod 2 ^ 32) mod length ps))"
proof -
  from assms(3) have i: "0 < i" by (cases i) simp_all
  then have s: "Suc (i - 1) = i" by simp
  from i assms(2) have j: "i - 1 < K" by arith
  have "fst (Next \<lparr>proxies = ps, current = of_nat (i - 1)\<rparr>) =
      Inr (ps ! (((i - 1) mod 2 ^ 32) mod length ps))"
    using assms(1,3) by (intro Next_off_wrap) (simp_all add: s)
  then show ?thesis
    using j assms(1) by (simp add: Next_calls_nth Next_state_nonempty NewProxyRotator_def)
qed

lemma round_robin_single:
  assumes "1 \<le> i" "i \<le> K"
  shows "Next_calls K (NewProxyRotator [a]) ! (i - 1) = Inr ([a] ! ((i - 1) mod length [a]))"
proof -
  from assms have j: "i - 1 < K" by arith
  show ?thesis
    using j by (simp add: Next_calls_nth Next_state_nonempty NewProxyRotator_def Next_single)
qed

lemma round_robin_empty:
  assumes "1 \<le> i" "i \<le> K"
  shows "Next_calls K (NewProxyRotator []) ! (i - 1) = Inr ''''"
proof -
  from assms have j: "i - 1 < K" by arith
  show ?thesis
    using j by (simp add: Next_calls_nth Next_state_empty Next_empty NewProxyRotator_def)
qed

text \<open>
  C1 (the code at the failing input). The claim is that the i-th call of any
  sequence of calls returns \<open>list[(i-1) mod N]\<close>. On a fresh rotator over two
  proxies the \<open>2^32\<close>-th call of a sequence of \<open>2^32\<close> calls should return
  \<open>list[(2^32 - 1) mod 2] = list[1]\<close>; the counter wraps to 0 on that call and
  it panics with an index out of range.
\<close>

theorem Next_round_robin_at_wrap:
  "Next_calls (2 ^ 32) (NewProxyRotator [''a'', ''b'']) ! (2 ^ 32 - 1) = Inl IndexOutOfRange"
proof -
  have "Next_calls (2 ^ 32) (NewProxyRotator [''a'', ''b'']) ! (2 ^ 32 - 1) =
      fst (Next (Next_state (2 ^ 32 - 1) (NewProxyRotator [''a'', ''b''])))"
    by (rule Next_calls_nth) simp
  then show ?thesis
    by (simp only: Next_state_two_before_wrap Next_at_wrap fst_conv)
qed

text \<open>
  C10 (the code at the failing input). A fresh rotator over two proxies, after
  \<open>2^32 - 1\<close> calls: the next atomic add wraps the counter to 0, the index is
  \<open>(0 - 1) % 2 = -1\<close>, and the slice access panics.
\<close>

theorem Next_wraparound_out_of_range:
  "Next (Next_state (2 ^ 32 - 1) (NewProxyRotator [''a'', ''b''])) =
     (Inl IndexOutOfRange, \<lparr>proxies = [''a'', ''b''], current = 0\<rparr>)"
  by (simp only: Next_state_two_before_wrap Next_at_wrap)

section \<open>Lists\<close>

lemma length_filter_update:
  "i < length xs \<Longrightarrow>
   length (filter P (xs[i := y])) + (if P (xs ! i) then 1 else 0) =
   length (filter P xs) + (if P y then 1 else 0)"
proof (induction xs arbitrary: i)
  case Nil
  then show ?case by simp
next
  case (Cons x xs)
  show ?case
  proof (cases i)
    case 0
    then show ?thesis by simp
  next
    case (Suc j)
    with Cons.prems have "j < length xs" by simp
    from Cons.IH[OF this] Suc show ?thesis by simp
  qed
qed

lemma filter_update_same:
  "i < length xs \<Longrightarrow> P (xs ! i) = P y \<Longrightarrow>
   length (filter P (xs[i := y])) = length (filter P xs)"
  using length_filter_update[of i xs P y] by (simp split: if_splits)

lemma filter_update_drop:
  "i < length xs \<Longrightarrow> P (xs ! i) \<Longrightarrow> \<not> P y \<Longrightarrow>
   Suc (length (filter P (xs[i := y]))) = length (filter P xs)"
  using length_filter_update[of i xs P y] by simp

section \<open>Properties of the proxy validation\<close>

lemma mset_filter_upt_add:
  assumes "j < n" "\<not> P j" "Q j" "\<And>i. i \<noteq> j \<Longrightarrow> Q i = P i"
  shows "mset (filter Q [0..<n]) = add_mset j (mset (filter P [0..<n]))"
proof -
  have "filter_mset Q (mset [0..<n]) = add_mset j (filter_mset P (mset [0..<n]))"
  proof (rule multiset_eqI)
    fix x
    show "count (filter_mset Q (mset [0..<n])) x =
        count (add_mset j (filter_mset P (mset [0..<n]))) x"
    proof (cases "x = j")
      case True
      from distinct_upt[of 0 n]
      have "count (mset [0..<n]) j = (if j \<in> set [0..<n] then 1 else 0)"
        unfolding distinct_count_atmost_1 by blast
      with assms(1) have "count (mset [0..<n]) j = 1" by simp
      with True assms(2,3) show ?thesis by (simp del: mset_upt)
    next
      case False
      with assms(4)[of x] show ?thesis by (simp del: mset_upt)
    qed
  qed
  then show ?thesis by simp
qed

lemma probe_ok:
  assumes "probes_ok net ps v"
  shows "probes_ok net ps (probe net ps v j)"
proof (cases "j < length ps")
  case False
  with assms show ?thesis by (simp add: probe_def)
next
  case True
  from assms have len: "length (probes v) = length ps" by (simp add: probes_ok_def)
  with True have j: "j < length (probes v)" by simp
  consider "probes v ! j = 0" | "probes v ! j = 1" | "2 \<le> probes v ! j" by arith
  then show ?thesis
  proof cases
    case 1
    have w: "length (filter (\<lambda>pc. pc < 2) ((probes v)[j := Suc 0])) =
        length (filter (\<lambda>pc. pc < 2) (probes v))"
      using j 1 by (intro filter_update_same) simp_all
    show ?thesis
    proof (cases "net j (ps ! j)")
      case ok: True
      have a: "mset (filter (\<lambda>i. 0 < (probes v)[j := Suc 0] ! i \<and> net i (ps ! i)) [0..<length ps]) =
          add_mset j (mset (filter (\<lambda>i. 0 < probes v ! i \<and> net i (ps ! i)) [0..<length ps]))"
        using True 1 ok j by (intro mset_filter_upt_add) simp_all
      have b: "filter (\<lambda>i. 0 < (probes v)[j := Suc 0] ! i \<and> \<not> net i (ps ! i)) [0..<length ps] =
          filter (\<lambda>i. 0 < probes v ! i \<and> \<not> net i (ps ! i)) [0..<length ps]"
        using ok j by (intro filter_cong) (auto simp: nth_list_update)
      have a': "mset (map ((!) ps)
            (filter (\<lambda>i. 0 < (probes v)[j := Suc 0] ! i \<and> net i (ps ! i)) [0..<length ps])) =
          add_mset (ps ! j) (mset (map ((!) ps)
            (filter (\<lambda>i. 0 < probes v ! i \<and> net i (ps ! i)) [0..<length ps])))"
        by (metis a image_mset_add_mset mset_map)
      from assms True j 1 ok show ?thesis
        unfolding probes_ok_def probe_def testProxy_def
        by (simp add: w a' b del: mset_map mset_filter)
    next
      case no: False
      have a: "mset (filter (\<lambda>i. 0 < (probes v)[j := Suc 0] ! i \<and> \<not> net i (ps ! i)) [0..<length ps]) =
          add_mset j (mset (filter (\<lambda>i. 0 < probes v ! i \<and> \<not> net i (ps ! i)) [0..<length ps]))"
        using True 1 no j by (intro mset_filter_upt_add) simp_all
      have b: "filter (\<lambda>i. 0 < (probes v)[j := Suc 0] ! i \<and> net i (ps ! i)) [0..<length ps] =
          filter (\<lambda>i. 0 < probes v ! i \<and> net i (ps ! i)) [0..<length ps]"
        using no j by (intro filter_cong) (auto simp: nth_list_update)
      have a': "mset (map ((!) ps)
            (filter (\<lambda>i. 0 < (probes v)[j := Suc 0] ! i \<and> \<not> net i (ps ! i)) [0..<length ps])) =
          add_mset (ps ! j) (mset (map ((!) ps)
            (filter (\<lambda>i. 0 < probes v ! i \<and> \<not> net i (ps ! i)) [0..<length ps])))"
        by (metis a image_mset_add_mset mset_map)
      from assms True j 1 no show ?thesis
        unfolding probes_ok_def probe_def testProxy_def
        by (simp add: w a' b del: mset_map mset_filter)
    qed
  next
    case 2
    have w: "Suc (length (filter (\<lambda>pc. pc < 2) ((probes v)[j := 2]))) =
        length (filter (\<lambda>pc. pc < 2) (probes v))"
      using j 2 by (intro filter_update_drop) simp_all
    have b: "filter (\<lambda>i. 0 < (probes v)[j := 2] ! i \<and> Q i) [0..<length ps] =
        filter (\<lambda>i. 0 < probes v ! i \<and> Q i) [0..<length ps]" for Q
      using 2 j by (intro filter_cong) (auto simp: nth_list_update)
    from assms True j 2 w show ?thesis
      unfolding probes_ok_def probe_def
      by (simp add: b del: mset_map mset_filter)
  next
    case 3
    with assms True j show ?thesis by (simp add: probe_def)
  qed
qed

lemma foldl_probe_ok:
  "probes_ok net ps v \<Longrightarrow> probes_ok net ps (foldl (probe net ps) v sched)"
  by (induction sched arbitrary: v) (simp_all add: probe_ok)

lemma spawn_probes_ok: "probes_ok net ps (spawn_probes ps)"
  by (simp add: probes_ok_def spawn_probes_def)

lemma probe_pc:
  assumes "length (probes v) = length ps" "i < length ps"
  shows "min 2 (probes (probe net ps v j) ! i) =
           min 2 (probes v ! i + (if j = i then 1 else 0))"
    and "length (probes (probe net ps v j)) = length ps"
  using assms by (auto simp: probe_def nth_list_update)

lemma foldl_probe_pc:
  assumes "length (probes v) = length ps" "i < length ps"
  shows "min 2 (probes (foldl (probe net ps) v sched) ! i) =
           min 2 (probes v ! i + count_list sched i)"
  using assms(1)
proof (induction sched arbitrary: v)
  case Nil
  then show ?case by simp
next
  case (Cons j sched)
  have l: "length (probes (probe net ps v j)) = length ps"
    using Cons.prems assms(2) by (rule probe_pc(2))
  have "min 2 (probes (foldl (probe net ps) (probe net ps v j) sched) ! i) =
      min 2 (probes (probe net ps v j) ! i + count_list sched i)"
    using l by (rule Cons.IH)
  also have "\<dots> = min 2 (min 2 (probes (probe net ps v j) ! i) + count_list sched i)"
    by (simp add: min_def)
  also have "\<dots> = min 2 (min 2 (probes v ! i + (if j = i then 1 else 0)) + count_list sched i)"
    using probe_pc(1)[OF Cons.prems assms(2), of net j] by simp
  also have "\<dots> = min 2 (probes v ! i + count_list (j # sched) i)"
    by (auto simp: min_def)
  finally show ?case by simp
qed

text \<open>The wait group is at zero exactly when every probe has taken its two steps.\<close>

lemma wg_zero_iff:
  assumes "probes_ok net ps v"
  shows "wg v = 0 \<longleftrightarrow> (\<forall>i<length ps. 2 \<le> probes v ! i)"
proof -
  from assms have l: "length (probes v) = length ps"
    and w: "wg v = length (filter (\<lambda>pc. pc < 2) (probes v))"
    by (simp_all add: probes_ok_def)
  have "wg v = 0 \<longleftrightarrow> (\<forall>pc\<in>set (probes v). \<not> pc < 2)"
    by (simp add: w filter_empty_conv)
  also have "\<dots> \<longleftrightarrow> (\<forall>i<length ps. 2 \<le> probes v ! i)"
    using l by (auto simp: all_set_conv_all_nth not_less)
  finally show ?thesis .
qed

lemma ValidateProxies_returns_iff:
  "ValidateProxies net sched ps \<noteq> None \<longleftrightarrow> (\<forall>i<length ps. 2 \<le> count_list sched i)"
proof -
  let ?v = "foldl (probe net ps) (spawn_probes ps) sched"
  have ok: "probes_ok net ps ?v"
    by (intro foldl_probe_ok spawn_probes_ok)
  have pc: "min 2 (probes ?v ! i) = min 2 (count_list sched i)" if "i < length ps" for i
    using foldl_probe_pc[of "spawn_probes ps" ps i net sched] that
    by (simp add: spawn_probes_def)
  have "(2 \<le> probes ?v ! i) = (2 \<le> count_list sched i)" if "i < length ps" for i
    using pc[OF that] by (simp add: min_def split: if_splits)
  then have "(\<forall>i<length ps. 2 \<le> probes ?v ! i) \<longleftrightarrow> (\<forall>i<length ps. 2 \<le> count_list sched i)"
    by simp
  with wg_zero_iff[OF ok] show ?thesis
    by (simp add: ValidateProxies_def Let_def)
qed

lemma filter_upt_all: "(\<And>i. i < n \<Longrightarrow> R i) \<Longrightarrow>
  filter (\<lambda>i. R i \<and> P i) [0..<n] = filter P [0..<n]"
  by (rule filter_cong) simp_all

lemma ValidateProxies_returned:
  assumes "ValidateProxies net sched ps = Some (valid, invalid)"
  shows "mset valid = mset (map ((!) ps) (filter (\<lambda>i. net i (ps ! i)) [0..<length ps]))"
    and "mset invalid = mset (map ((!) ps) (filter (\<lambda>i. \<not> net i (ps ! i)) [0..<length ps]))"
proof -
  let ?v = "foldl (probe net ps) (spawn_probes ps) sched"
  have ok: "probes_ok net ps ?v"
    by (intro foldl_probe_ok spawn_probes_ok)
  from assms have z: "wg ?v = 0" and v: "valid = validProxies ?v" "invalid = invalidProxies ?v"
    by (simp_all add: ValidateProxies_def Let_def split: if_splits)
  from z wg_zero_iff[OF ok] have all: "\<And>i. i < length ps \<Longrightarrow> 0 < probes ?v ! i"
    by fastforce
  show "mset valid = mset (map ((!) ps) (filter (\<lambda>i. net i (ps ! i)) [0..<length ps]))"
    using ok unfolding v probes_ok_def by (simp only: filter_upt_all[OF all])
  show "mset invalid = mset (map ((!) ps) (filter (\<lambda>i. \<not> net i (ps ! i)) [0..<length ps]))"
    using ok unfolding v probes_ok_def by (simp only: filter_upt_all[OF all])
qed

lemma count_list_upt: "i < n \<Longrightarrow> count_list [0..<n] i = 1"
  by (induction n) (auto simp: less_Suc_eq)

lemma ValidateProxies_fair:
  "ValidateProxies net (sched @ [0..<length ps] @ [0..<length ps]) ps \<noteq> None"
  unfolding ValidateProxies_returns_iff by (simp add: count_list_upt)

lemma ValidateProxies_valid_subset:
  assumes "ValidateProxies net sched ps = Some (valid, invalid)"
  shows "set valid \<subseteq> set ps"
proof -
  have "set valid = set (map ((!) ps) (filter (\<lambda>i. net i (ps ! i)) [0..<length ps]))"
    using ValidateProxies_returned(1)[OF assms] by (rule mset_eq_setD)
  then show ?thesis by auto
qed

lemma ValidateProxies_all_fail:
  assumes "ValidateProxies net sched ps = Some (valid, invalid)"
    and "\<forall>i<length ps. \<not> net i (ps ! i)"
  shows "valid = []"
proof -
  have "filter (\<lambda>i. net i (ps ! i)) [0..<length ps] = []"
    using assms(2) by (simp add: filter_empty_conv)
  with ValidateProxies_returned(1)[OF assms(1)] show ?thesis by simp
qed

lemma mset_partition_nth:
  "mset (map ((!) ps) (filter P [0..<length ps])) +
   mset (map ((!) ps) (filter (\<lambda>i. \<not> P i) [0..<length ps])) = mset ps"
proof -
  have "mset (filter P [0..<length ps]) + mset (filter (\<lambda>i. \<not> P i) [0..<length ps]) =
      mset [0..<length ps]"
    by (simp only: mset_filter multiset_partition[symmetric])
  then have "image_mset ((!) ps) (mset (filter P [0..<length ps]) +
      mset (filter (\<lambda>i. \<not> P i) [0..<length ps])) = image_mset ((!) ps) (mset [0..<length ps])"
    by simp
  moreover have "image_mset ((!) ps) (mset [0..<length ps]) = mset ps"
    by (simp only: mset_map[symmetric] map_nth)
  ultimately show ?thesis by (simp del: mset_filter mset_upt)
qed

text \<open>
  C3. \<open>ValidateProxies\<close> returns exactly when every goroutine has made its
  connect attempt, sent its address and called \<open>wg.Done()\<close>, so it blocks
  until every probe has resolved, and under a fair scheduler it does return.
  What it returns then is a partition of the input: an address is returned as
  valid if and only if the one connect attempt of a probe of it succeeded, and as
  invalid if and only if the attempt of a probe of it failed; the valid and the
  invalid addresses are those of the succeeding and of the failing probes, each
  as often as it was probed; together they are the input (as a multiset, hence
  as a set), and the two lengths add up to the input's.
\<close>

theorem ValidateProxies_partition:
  "(ValidateProxies net sched ps \<noteq> None \<longleftrightarrow> (\<forall>i<length ps. 2 \<le> count_list sched i)) \<and>
   ValidateProxies net (sched @ [0..<length ps] @ [0..<length ps]) ps \<noteq> None \<and>
   (ValidateProxies net sched ps = Some (valid, invalid) \<longrightarrow>
      (a \<in> set valid \<longleftrightarrow> (\<exists>i. i < length ps \<and> ps ! i = a \<and> net i a)) \<and>
      (a \<in> set invalid \<longleftrightarrow> (\<exists>i. i < length ps \<and> ps ! i = a \<and> \<not> net i a)) \<and>
      mset valid = mset (map ((!) ps) (filter (\<lambda>i. net i (ps ! i)) [0..<length ps])) \<and>
      mset invalid = mset (map ((!) ps) (filter (\<lambda>i. \<not> net i (ps ! i)) [0..<length ps])) \<and>
      mset valid + mset invalid = mset ps \<and>
      set valid \<union> set invalid = set ps \<and>
      length valid + length invalid = length ps)"
proof (intro conjI impI)
  show "ValidateProxies net sched ps \<noteq> None \<longleftrightarrow> (\<forall>i<length ps. 2 \<le> count_list sched i)"
    by (rule ValidateProxies_returns_iff)
  show "ValidateProxies net (sched @ [0..<length ps] @ [0..<length ps]) ps \<noteq> None"
    by (rule ValidateProxies_fair)
next
  assume r: "ValidateProxies net sched ps = Some (valid, invalid)"
  note v = ValidateProxies_returned(1)[OF r] and w = ValidateProxies_returned(2)[OF r]
  have "set valid = set (map ((!) ps) (filter (\<lambda>i. net i (ps ! i)) [0..<length ps]))"
    using v by (rule mset_eq_setD)
  then show "a \<in> set valid \<longleftrightarrow> (\<exists>i. i < length ps \<and> ps ! i = a \<and> net i a)"
    by auto
  have "set invalid = set (map ((!) ps) (filter (\<lambda>i. \<not> net i (ps ! i)) [0..<length ps]))"
    using w by (rule mset_eq_setD)
  then show "a \<in> set invalid \<longleftrightarrow> (\<exists>i. i < length ps \<and> ps ! i = a \<and> \<not> net i a)"
    by auto
  show "mset valid = mset (map ((!) ps) (filter (\<lambda>i. net i (ps ! i)) [0..<length ps]))"
    by (rule v)
  show "mset invalid = mset (map ((!) ps) (filter (\<lambda>i. \<not> net i (ps ! i)) [0..<length ps]))"
    by (rule w)
  show sum: "mset valid + mset invalid = mset ps"
    by (simp only: v w mset_partition_nth)
  have "set_mset (mset valid + mset invalid) = set_mset (mset ps)"
    by (simp only: sum)
  then show "set valid \<union> set invalid = set ps" by simp
  have "size (mset valid + mset invalid) = size (mset ps)"
    by (simp only: sum)
  then show "length valid + length invalid = length ps" by simp
qed

lemma example_validation:
  "ValidateProxies (\<lambda>i a. a = ''a:1'' \<or> a = ''c:3'') [2, 0, 2, 3, 1, 0, 1, 3]
     [''a:1'', ''b:2'', ''c:3'', ''d:4''] = Some ([''c:3'', ''a:1''], [''d:4'', ''b:2''])"
  "ValidateProxies (\<lambda>i a. a = ''a:1'' \<or> a = ''c:3'') [2, 0, 2, 3, 1, 0, 1]
     [''a:1'', ''b:2'', ''c:3'', ''d:4''] = None"
  by (simp_all add: ValidateProxies_def probe_def spawn_probes_def testProxy_def
      eval_nat_numeral)

theorem ValidateProxies_partition_witness:
  "ValidateProxies (\<lambda>i a. a = ''a:1'' \<or> a = ''c:3'') [2, 0, 2, 3, 1, 0, 1, 3]
     [''a:1'', ''b:2'', ''c:3'', ''d:4''] = Some ([''c:3'', ''a:1''], [''d:4'', ''b:2'']) \<and>
   ValidateProxies (\<lambda>i a. a = ''a:1'' \<or> a = ''c:3'') [2, 0, 2, 3, 1, 0, 1]
     [''a:1'', ''b:2'', ''c:3'', ''d:4''] = None \<and>
   ''a:1'' \<in> set [''c:3'', ''a:1''] \<and> ''a:1'' \<notin> set [''d:4'', ''b:2''] \<and>
   set [''c:3'', ''a:1''] \<union> set [''d:4'', ''b:2''] = set [''a:1'', ''b:2'', ''c:3'', ''d:4''] \<and>
   length [''c:3'', ''a:1''] + length [''d:4'', ''b:2''] =
     length [''a:1'', ''b:2'', ''c:3'', ''d:4'']"
  using ValidateProxies_partition [where net = "\<lambda>i a. a = ''a:1'' \<or> a = ''c:3''"
      and sched = "[2, 0, 2, 3, 1, 0, 1, 3]" and ps = "[''a:1'', ''b:2'', ''c:3'', ''d:4'']"
      and valid = "[''c:3'', ''a:1'']" and invalid = "[''d:4'', ''b:2'']" and a = "''a:1''"]
    example_validation
  by simp

section \<open>Properties of the start-up and of the proxied client\<close>

lemma ReadFileEntries_nonblank: "ReadFileEntries w path = Inr ps \<Longrightarrow> '''' \<notin> set ps"
  by (auto simp: ReadFileEntries_def split: option.splits prod.splits if_splits)

lemma Next_result_in_list:
  "fst (Next p) = Inr a \<Longrightarrow> proxies p \<noteq> [] \<Longrightarrow> a \<in> set (proxies p)"
  by (auto simp: Next_def Let_def split: if_splits)

lemma Next_empty_iff:
  "'''' \<notin> set (proxies p) \<Longrightarrow> fst (Next p) = Inr '''' \<longleftrightarrow> proxies p = []"
  using Next_result_in_list[of p "''''"] by (auto simp: Next_empty)

lemma Next_state_proxies: "proxies (Next_state k p) = proxies p"
  by (cases "proxies p = []") (simp_all add: Next_state_empty Next_state_nonempty)

lemma Dial_empty:
  "fst (Next p) = Inr '''' \<Longrightarrow>
   Dial socks p addr = (DialErr ''proxy address is empty'', snd (Next p))"
  by (cases "Next p") (simp add: Dial_def)

lemma Dial_no_proxies:
  "proxies p = [] \<Longrightarrow> Dial socks p addr = (DialErr ''proxy address is empty'', p)"
  by (simp add: Dial_def Next_empty)

lemma startup_validated: "main_startup w f \<noteq> StillValidating"
proof
  assume "main_startup w f = StillValidating"
  then obtain ps where
    "ValidateProxies (DialTimeout w) (probe_order w @ [0..<length ps] @ [0..<length ps]) ps =
      None"
    by (auto simp: main_startup_def Let_def
        split: if_splits sum.splits option.splits prod.splits)
  with ValidateProxies_fair show False by blast
qed

lemma startup_loop_checked:
  "main_startup w f = DispatchLoop c n ua \<Longrightarrow> \<not> bad_configuration w f"
  by (simp add: bad_configuration_def main_startup_def Let_def
      split: if_splits sum.splits option.splits prod.splits)

lemma startup_panic_checked:
  "main_startup w f = MakechanPanic \<Longrightarrow> \<not> bad_configuration w f"
  by (simp add: bad_configuration_def main_startup_def Let_def
      split: if_splits sum.splits option.splits prod.splits)

lemma startup_version_flag: "main_startup w f = VersionPrinted \<Longrightarrow> printVersion f"
  by (simp add: main_startup_def Let_def split: if_splits sum.splits option.splits prod.splits)

lemma startup_rotator_nonblank:
  assumes "main_startup w f = DispatchLoop (ProxyClient p) n ua"
  shows "'''' \<notin> set (proxies p)"
proof -
  from assms obtain ps sched invalid where ps: "ReadFileEntries w (proxyList f) = Inr ps"
    and v: "ValidateProxies (DialTimeout w) sched ps = Some (proxies p, invalid)"
    by (auto simp: main_startup_def Let_def GetClient_def NewProxyRotator_def
        split: if_splits sum.splits option.splits prod.splits)
  from ps have "'''' \<notin> set ps" by (rule ReadFileEntries_nonblank)
  with ValidateProxies_valid_subset[OF v] show ?thesis by auto
qed

lemma all_invalid_starts:
  assumes "\<not> printVersion f" "ParseLevel w (logLevel f)"
    "(if userAgentsListFile f \<noteq> '''' then ReadFileEntries w (userAgentsListFile f)
      else Inr []) = Inr ua"
    "proxyList f \<noteq> ''''" "ReadFileEntries w (proxyList f) = Inr ps"
    "\<forall>i<length ps. \<not> DialTimeout w i (ps ! i)"
    "\<not> bad_configuration w f"
    "makechan w 0 (nat (sint (maxGoroutines f)))" "makechan w 8 (nat (sint (maxGoroutines f)))"
  shows "main_startup w f =
    DispatchLoop (GetClient (NewProxyRotator [])) (nat (sint (maxGoroutines f))) ua"
proof -
  obtain valid invalid where
    v: "ValidateProxies (DialTimeout w) (probe_order w @ [0..<length ps] @ [0..<length ps]) ps =
      Some (valid, invalid)"
    using ValidateProxies_fair[of "DialTimeout w" "probe_order w" ps] by auto
  from ValidateProxies_all_fail[OF v assms(6)] have "valid = []" .
  with v assms(1-5,7-9) show ?thesis
    by (simp add: bad_configuration_def main_startup_def Let_def)
qed

lemma example_entries:
  "ReadFileEntries example_world ''proxies.txt'' = Inr [''127.0.0.1:4145'', ''127.0.0.1:1080'']"
  by (simp add: ReadFileEntries_def example_world_def)

lemma example_upper: "map ascii_upper ''get'' = ''GET''" "map ascii_upper ''brew'' = ''BREW''"
  by code_simp+

lemma example_method: "ToUpper example_world ''get'' = ''GET''"
  by (simp add: example_world_def example_upper del: list.map)

lemma example_flags_good: "\<not> bad_configuration example_world example_flags"
  unfolding bad_configuration_def
  by (simp add: example_flags_def example_method allowedHTTPMethods_def)
    (simp add: example_world_def)

text \<open>
  C7. \<open>main\<close> builds its rotator from the lines \<open>ReadFileEntries\<close> keeps, none
  of which is blank, and from the addresses the validation returns as valid,
  which are addresses of its input. On such a rotator every call of \<open>Next\<close>,
  after any number of earlier calls, returns the empty string if and only if the
  list is empty (and so does \<open>Next\<close> on any list without an empty entry).
  Whenever the dialer of the proxied client gets the empty string from \<open>Next\<close>
  it returns the error "proxy address is empty": the library's dialer is not
  called, whatever it would do, so no connection is made, direct or proxied. On
  the empty rotator every dial fails so and leaves the rotator as it was. A proxy
  file none of whose addresses answers does not abort the start-up: a
  configuration that is otherwise in order reaches the dispatch loop, with the
  client of the empty rotator.
\<close>

theorem empty_rotator_behaviour:
  "(main_startup w f = DispatchLoop (ProxyClient p) n ua \<longrightarrow>
      (fst (Next (Next_state k p)) = Inr '''' \<longleftrightarrow> proxies p = [])) \<and>
   ('''' \<notin> set (proxies p) \<longrightarrow> (fst (Next p) = Inr '''' \<longleftrightarrow> proxies p = [])) \<and>
   (fst (Next p) = Inr '''' \<longrightarrow>
      Dial socks p addr = (DialErr ''proxy address is empty'', snd (Next p)) \<and>
      fst (Dial socks p addr) \<noteq> Direct a) \<and>
   (proxies p = [] \<longrightarrow> Dial socks p addr = (DialErr ''proxy address is empty'', p)) \<and>
   (\<not> printVersion f \<and> ParseLevel w (logLevel f) \<and>
    (if userAgentsListFile f \<noteq> '''' then ReadFileEntries w (userAgentsListFile f)
     else Inr []) = Inr ua \<and>
    proxyList f \<noteq> '''' \<and> ReadFileEntries w (proxyList f) = Inr ps \<and>
    (\<forall>i<length ps. \<not> DialTimeout w i (ps ! i)) \<and> \<not> bad_configuration w f \<and>
    makechan w 0 (nat (sint (maxGoroutines f))) \<and>
    makechan w 8 (nat (sint (maxGoroutines f))) \<longrightarrow>
      main_startup w f =
        DispatchLoop (GetClient (NewProxyRotator [])) (nat (sint (maxGoroutines f))) ua)"
proof (intro conjI impI)
  assume "main_startup w f = DispatchLoop (ProxyClient p) n ua"
  then have "'''' \<notin> set (proxies (Next_state k p))"
    using startup_rotator_nonblank by (simp add: Next_state_proxies)
  then show "fst (Next (Next_state k p)) = Inr '''' \<longleftrightarrow> proxies p = []"
    using Next_empty_iff[of "Next_state k p"] by (simp add: Next_state_proxies)
next
  assume "'''' \<notin> set (proxies p)"
  then show "fst (Next p) = Inr '''' \<longleftrightarrow> proxies p = []" by (rule Next_empty_iff)
next
  assume e: "fst (Next p) = Inr ''''"
  then show "Dial socks p addr = (DialErr ''proxy address is empty'', snd (Next p))"
    by (rule Dial_empty)
  then show "fst (Dial socks p addr) \<noteq> Direct a" by simp
next
  assume "proxies p = []"
  then show "Dial socks p addr = (DialErr ''proxy address is empty'', p)"
    by (rule Dial_no_proxies)
next
  assume "\<not> printVersion f \<and> ParseLevel w (logLevel f) \<and>
    (if userAgentsListFile f \<noteq> '''' then ReadFileEntries w (userAgentsListFile f)
     else Inr []) = Inr ua \<and>
    proxyList f \<noteq> '''' \<and> ReadFileEntries w (proxyList f) = Inr ps \<and>
    (\<forall>i<length ps. \<not> DialTimeout w i (ps ! i)) \<and> \<not> bad_configuration w f \<and>
    makechan w 0 (nat (sint (maxGoroutines f))) \<and>
    makechan w 8 (nat (sint (maxGoroutines f)))"
  then show "main_startup w f =
      DispatchLoop (GetClient (NewProxyRotator [])) (nat (sint (maxGoroutines f))) ua"
    using all_invalid_starts[of f w ua ps] by blast
qed

theorem empty_rotator_behaviour_witness:
  "main_startup example_world example_flags =
     DispatchLoop (ProxyClient (NewProxyRotator [])) 10 [] \<and>
   fst (Next (Next_state 3 (NewProxyRotator []))) = Inr '''' \<and>
   proxies (NewProxyRotator []) = [] \<and>
   '''' \<notin> set (proxies (NewProxyRotator [])) \<and>
   fst (Next (NewProxyRotator [])) = Inr '''' \<and>
   Dial (\<lambda>url a. Direct a) (NewProxyRotator []) ''localhost:8080'' =
     (DialErr ''proxy address is empty'', NewProxyRotator []) \<and>
   \<not> printVersion example_flags \<and> ParseLevel example_world (logLevel example_flags) \<and>
   userAgentsListFile example_flags = '''' \<and> proxyList example_flags \<noteq> '''' \<and>
   ReadFileEntries example_world (proxyList example_flags) =
     Inr [''127.0.0.1:4145'', ''127.0.0.1:1080''] \<and>
   \<not> DialTimeout example_world 0 ''127.0.0.1:4145'' \<and>
   \<not> DialTimeout example_world 1 ''127.0.0.1:1080'' \<and>
   \<not> bad_configuration example_world example_flags \<and>
   makechan example_world 0 10 \<and> makechan example_world 8 10"
proof -
  have probes: "\<forall>i<length [''127.0.0.1:4145'', ''127.0.0.1:1080''].
      \<not> DialTimeout example_world i ([''127.0.0.1:4145'', ''127.0.0.1:1080''] ! i)"
    by (simp add: example_world_def)
  have flags: "\<not> printVersion example_flags" "logLevel example_flags = ''info''"
    "userAgentsListFile example_flags = ''''" "proxyList example_flags = ''proxies.txt''"
    "nat (sint (maxGoroutines example_flags)) = 10"
    by (simp_all add: example_flags_def)
  have lvl: "ParseLevel example_world ''info''"
    by (simp add: example_world_def)
  have dial: "\<not> DialTimeout example_world 0 ''127.0.0.1:4145''"
    "\<not> DialTimeout example_world 1 ''127.0.0.1:1080''"
    by (simp_all add: example_world_def)
  have chan: "makechan example_world 0 10" "makechan example_world 8 10"
    by (simp_all add: example_world_def)
  have st: "Next_state 3 (NewProxyRotator []) = NewProxyRotator []"
    by (simp add: Next_state_empty NewProxyRotator_def)
  show ?thesis
    using empty_rotator_behaviour [where w = example_world and f = example_flags
        and p = "NewProxyRotator []" and n = 10 and ua = "[]" and k = 3
        and socks = "\<lambda>url a. Direct a" and addr = "''localhost:8080''"
        and a = "''localhost:8080''" and ps = "[''127.0.0.1:4145'', ''127.0.0.1:1080'']"]
      probes example_flags_good example_entries flags lvl dial chan
    by (simp add: st GetClient_def Next_empty NewProxyRotator_def)
qed

text \<open>
  C8. A configuration with an empty or unparsable target URL, a method outside
  the allowed set after upper-casing, a concurrency bound below 1 or a negative
  delay never reaches the dispatch loop, so no request is sent; unless only the
  version was asked for, the start-up ends in a fatal log event, which exits the
  process.
\<close>

theorem fatal_configuration:
  assumes "bad_configuration w f"
  shows "main_startup w f \<noteq> DispatchLoop c n ua \<and>
         (\<not> printVersion f \<longrightarrow> (\<exists>msg. main_startup w f = Fatal msg))"
proof (cases "main_startup w f")
  case VersionPrinted
  then show ?thesis using startup_version_flag by simp
next
  case (Fatal msg)
  then show ?thesis by simp
next
  case StillValidating
  then show ?thesis using startup_validated by simp
next
  case MakechanPanic
  then show ?thesis using startup_panic_checked assms by blast
next
  case (DispatchLoop c' n' ua')
  then show ?thesis using startup_loop_checked assms by blast
qed

theorem fatal_configuration_witness:
  "bad_configuration example_world (example_flags\<lparr>method_name := ''brew''\<rparr>) \<and>
   \<not> printVersion (example_flags\<lparr>method_name := ''brew''\<rparr>) \<and>
   main_startup example_world (example_flags\<lparr>method_name := ''brew''\<rparr>) \<noteq>
     DispatchLoop DirectClient 10 [] \<and>
   (\<exists>msg. main_startup example_world (example_flags\<lparr>method_name := ''brew''\<rparr>) = Fatal msg)"
proof -
  have up: "ToUpper example_world ''brew'' = ''BREW''"
    by (simp add: example_world_def example_upper del: list.map)
  have bad: "bad_configuration example_world (example_flags\<lparr>method_name := ''brew''\<rparr>)"
    unfolding bad_configuration_def by (simp add: up allowedHTTPMethods_def)
  have nv: "\<not> printVersion (example_flags\<lparr>method_name := ''brew''\<rparr>)"
    by (simp add: example_flags_def)
  show ?thesis
    using fatal_configuration [OF bad, of DirectClient 10 "[]"] bad nv by simp
qed

section \<open>Properties of the dispatch loop and the senders\<close>

text \<open>One event keeps the tokens in \<open>sem\<close> equal to the senders that hold a slot.\<close>

lemma fire_slots:
  assumes "fire C e s = Some s'" "sem s = slots_held s" "sem s \<le> C"
  shows "sem s' = slots_held s' \<and> sem s' \<le> C"
proof (cases e)
  case Admit
  with assms show ?thesis by (auto simp: slots_held_def split: if_splits)
next
  case (Respond i r)
  with assms show ?thesis
    by (auto simp: slots_held_def filter_update_same split: if_splits)
next
  case (Deliver i)
  with assms show ?thesis
    by (auto simp: slots_held_def filter_update_same split: if_splits sender.splits)
next
  case (Drop i)
  with assms show ?thesis
    by (auto simp: slots_held_def filter_update_same split: if_splits sender.splits)
next
  case (Release i)
  with assms have i: "i < length (senders s)" "senders s ! i = Releasing" "0 < sem s"
    and s': "s' = s\<lparr>sem := sem s - 1, senders := (senders s)[i := Exited True]\<rparr>"
    by (auto split: if_splits)
  have "Suc (length (filter holds_slot ((senders s)[i := Exited True]))) =
      length (filter holds_slot (senders s))"
    using i by (intro filter_update_drop) simp_all
  moreover have "sem s' = sem s - 1"
    "slots_held s' = length (filter holds_slot ((senders s)[i := Exited True]))"
    using s' by (simp_all add: slots_held_def)
  moreover have "sem s = length (filter holds_slot (senders s))"
    using assms(2) by (simp add: slots_held_def)
  ultimately show ?thesis using assms(3) by arith
next
  case (Abandon i)
  with assms show ?thesis
    by (auto simp: slots_held_def filter_update_same split: if_splits)
next
  case Cancel
  with assms show ?thesis by (auto simp: slots_held_def)
next
  case Drain
  with assms show ?thesis by (auto simp: slots_held_def split: if_splits list.splits)
next
  case Return
  with assms show ?thesis by (auto simp: slots_held_def split: if_splits)
qed

lemma run_slots:
  "run C es s = Some s' \<Longrightarrow> sem s = slots_held s \<Longrightarrow> sem s \<le> C \<Longrightarrow>
   sem s' = slots_held s' \<and> sem s' \<le> C"
proof (induction es arbitrary: s)
  case Nil
  then show ?case by simp
next
  case (Cons e es)
  then obtain t where t: "fire C e s = Some t" "run C es t = Some s'"
    by (auto split: option.splits)
  from fire_slots[OF t(1) Cons.prems(2,3)] Cons.IH[OF t(2)] show ?case by simp
qed

lemma in_flight_le_held: "in_flight s \<le> slots_held s"
proof -
  have "running x \<Longrightarrow> holds_slot x" for x by (cases x) simp_all
  then have "length (filter running xs) \<le> length (filter holds_slot xs)" for xs
    by (induction xs) auto
  then show ?thesis by (simp add: in_flight_def slots_held_def)
qed

text \<open>
  C4. In every state a run can reach, whatever the events and their order, the
  number of \<open>sendRequest\<close> goroutines that have been spawned and have not
  returned is at most the number of tokens in the admission channel, which is at
  most its capacity \<open>C\<close>; and the tokens are exactly one for each sender that
  has not taken one out, so a sender occupies one slot from its spawn until it
  leaves.
\<close>

theorem bounded_concurrency:
  assumes "run C es start = Some s"
  shows "in_flight s \<le> sem s \<and> sem s \<le> C \<and> sem s = slots_held s"
proof -
  have "sem start = slots_held start" "sem start \<le> C"
    by (simp_all add: start_def slots_held_def)
  from run_slots[OF assms this] in_flight_le_held[of s] show ?thesis by simp
qed

theorem bounded_concurrency_witness:
  "run 2 [Admit, Admit, Respond 0 timed_out, Deliver 0, Release 0, Admit] start =
     Some \<lparr>sem = 2, respChan = [timed_out], ctx_done = False,
           senders = [Exited True, Requesting, Requesting], dispatching = True, handed = []\<rparr> \<and>
   in_flight \<lparr>sem = 2, respChan = [timed_out], ctx_done = False,
           senders = [Exited True, Requesting, Requesting], dispatching = True, handed = []\<rparr> = 2 \<and>
   fire 2 Admit \<lparr>sem = 2, respChan = [timed_out], ctx_done = False,
           senders = [Exited True, Requesting, Requesting], dispatching = True, handed = []\<rparr> =
     None"
proof -
  have r: "run 2 [Admit, Admit, Respond 0 timed_out, Deliver 0, Release 0, Admit] start =
     Some \<lparr>sem = 2, respChan = [timed_out], ctx_done = False,
           senders = [Exited True, Requesting, Requesting], dispatching = True, handed = []\<rparr>"
    by (simp add: start_def)
  show ?thesis
    using bounded_concurrency[OF r] r by (simp add: in_flight_def)
qed

lemma fire_after_cancel:
  "fire C e s = Some s' \<Longrightarrow> ctx_done s \<Longrightarrow> i < length (senders s) \<Longrightarrow>
   ctx_done s' \<and> i < length (senders s')"
  by (cases e) (auto split: if_splits sender.splits list.splits)

lemma run_after_cancel:
  "run C es s = Some s' \<Longrightarrow> ctx_done s \<Longrightarrow> i < length (senders s) \<Longrightarrow>
   ctx_done s' \<and> i < length (senders s')"
proof (induction es arbitrary: s)
  case Nil
  then show ?case by simp
next
  case (Cons e es)
  then obtain t where t: "fire C e s = Some t" "run C es t = Some s'"
    by (auto split: option.splits)
  from fire_after_cancel[OF t(1) Cons.prems(2,3)] Cons.IH[OF t(2)] show ?case by simp
qed

text \<open>
  C6. Once the cancellation signal is set it stays set, and from then on neither
  \<open>select\<close> of a sender can block: at the report, the cancellation case is
  ready and takes the sender on without touching the result channel (the outcome
  is dropped), and at the deferred release the cancellation case is ready and
  lets the sender return without touching the admission channel. So a sender
  that has its outcome leaves in two steps of its own, whatever the channels
  hold. No event of the model is a panic: the channels are never closed.
\<close>

theorem shutdown_never_blocks:
  "ctx_done s \<and> i < length (senders s) \<longrightarrow>
     (senders s ! i = Reporting r \<longrightarrow>
        fire C (Drop i) s = Some (s\<lparr>senders := (senders s)[i := Releasing]\<rparr>) \<and>
        run C [Drop i, Abandon i] s = Some (s\<lparr>senders := (senders s)[i := Exited False]\<rparr>)) \<and>
     (senders s ! i = Releasing \<longrightarrow>
        fire C (Abandon i) s = Some (s\<lparr>senders := (senders s)[i := Exited False]\<rparr>)) \<and>
     (run C es s = Some s' \<longrightarrow> ctx_done s' \<and> i < length (senders s'))"
  using run_after_cancel[of C es s s' i] by simp

theorem shutdown_never_blocks_witness:
  "run 1 [Admit, Respond 0 timed_out, Deliver 0, Release 0, Admit, Respond 1 timed_out, Cancel]
     start = Some shutdown_example \<and>
   ctx_done shutdown_example \<and> 1 < length (senders shutdown_example) \<and>
   senders shutdown_example ! 1 = Reporting timed_out \<and>
   fire 1 (Deliver 1) shutdown_example = None \<and>
   fire 1 (Drop 1) shutdown_example =
     Some (shutdown_example\<lparr>senders := [Exited True, Releasing]\<rparr>) \<and>
   run 1 [Drop 1, Abandon 1] shutdown_example =
     Some (shutdown_example\<lparr>senders := [Exited True, Exited False]\<rparr>)"
proof -
  have a: "ctx_done shutdown_example \<and> 1 < length (senders shutdown_example)"
    and b: "senders shutdown_example ! 1 = Reporting timed_out"
    by (simp_all add: shutdown_example_def)
  have c: "(senders shutdown_example)[1 := Releasing] = [Exited True, Releasing]"
    "(senders shutdown_example)[1 := Exited False] = [Exited True, Exited False]"
    by (simp_all add: shutdown_example_def)
  have d: "run 1 [Admit, Respond 0 timed_out, Deliver 0, Release 0, Admit, Respond 1 timed_out,
      Cancel] start = Some shutdown_example"
    by (simp add: start_def shutdown_example_def)
  have e: "fire 1 (Deliver 1) shutdown_example = None"
    by (simp add: shutdown_example_def)
  show ?thesis
    using shutdown_never_blocks [of shutdown_example 1 timed_out 1 "[]" shutdown_example]
      a b d e
    by (simp only: c)
qed

section \<open>Properties of the outcome\<close>

text \<open>
  C9 (as amended). When an attempt produces no response, the outcome records the
  status code that the acquired, untouched response object reports, together
  with the elapsed time and the error of \<open>DoTimeout\<close>; \<open>sendRequest\<close> itself
  never writes a 0.
\<close>

theorem failed_attempt_outcome:
  "sendRequest_result lib (NoResponse e) elapsed =
     \<lparr>status = StatusCode lib (AcquireResponse lib), err = Some e, duration = elapsed\<rparr>"
  by (simp add: sendRequest_result_def DoTimeout_def)

text \<open>
  C9 as stated fails with fasthttp's response: a dial error leaves the status
  field 0, for which the accessor reports 200, and that is what is recorded.
\<close>

theorem failed_attempt_counterexample:
  "status (sendRequest_result fasthttp_lib (NoResponse ''dial tcp: connection refused'') 5) \<noteq> 0"
  by (simp add: sendRequest_result_def DoTimeout_def fasthttp_lib_def)

section \<open>Properties of the aggregation\<close>

lemma sum_list_map_update:
  fixes f :: "'a \<Rightarrow> 'b::comm_monoid_add"
  shows "i < length xs \<Longrightarrow>
    sum_list (map f (xs[i := y])) + f (xs ! i) = sum_list (map f xs) + f y"
proof (induction xs arbitrary: i)
  case Nil
  then show ?case by simp
next
  case (Cons x xs)
  show ?case
  proof (cases i)
    case 0
    then show ?thesis by (simp add: ac_simps)
  next
    case (Suc j)
    with Cons.prems have "j < length xs" by simp
    from Cons.IH[OF this] Suc show ?thesis by (simp add: add.assoc)
  qed
qed

lemma sint_of_nat_64:
  assumes "n < 2 ^ 63"
  shows "sint (of_nat n :: 64 word) = int n"
proof -
  have "int n < 2 ^ 63" using assms by (simp add: of_nat_less_iff[of n "2 ^ 63", simplified])
  moreover have "- (2 ^ 63) \<le> int n" by simp
  ultimately have "signed_take_bit 63 (int n) = int n"
    by (intro signed_take_bit_int_eq_self) simp_all
  moreover have "(of_nat n :: 64 word) = word_of_int (int n)" by simp
  ultimately show ?thesis by (simp only: sint_sbintrunc') simp
qed

text \<open>A step of one task: what it adds to the counters and to what is counted.\<close>

lemma step_first:
  assumes "i < length ts" "ts ! i = (res, 0)"
  shows "errs_counted (ts[i := (res, Suc 0)]) =
           errs_counted ts + (if err res \<noteq> None then 1 else 0)"
    and "sent_counted (ts[i := (res, Suc 0)]) = sent_counted ts"
    and "duration_added (ts[i := (res, Suc 0)]) = duration_added ts"
proof -
  show "errs_counted (ts[i := (res, Suc 0)]) =
      errs_counted ts + (if err res \<noteq> None then 1 else 0)"
    using length_filter_update[OF assms(1),
        of "\<lambda>(res, pc). 1 \<le> pc \<and> err res \<noteq> None" "(res, Suc 0)"] assms(2)
    by (simp add: errs_counted_def)
  show "sent_counted (ts[i := (res, Suc 0)]) = sent_counted ts"
    using assms unfolding sent_counted_def by (intro filter_update_same) simp_all
  show "duration_added (ts[i := (res, Suc 0)]) = duration_added ts"
    using sum_list_map_update[OF assms(1),
        of "\<lambda>(res, pc). if 3 \<le> pc then duration res else 0" "(res, Suc 0)"] assms(2)
    by (simp add: duration_added_def)
qed

lemma step_second:
  assumes "i < length ts" "ts ! i = (res, Suc 0)"
  shows "errs_counted (ts[i := (res, Suc (Suc 0))]) = errs_counted ts"
    and "sent_counted (ts[i := (res, Suc (Suc 0))]) = Suc (sent_counted ts)"
    and "duration_added (ts[i := (res, Suc (Suc 0))]) = duration_added ts"
proof -
  show "errs_counted (ts[i := (res, Suc (Suc 0))]) = errs_counted ts"
    using assms unfolding errs_counted_def by (intro filter_update_same) simp_all
  show "sent_counted (ts[i := (res, Suc (Suc 0))]) = Suc (sent_counted ts)"
    using length_filter_update[OF assms(1), of "\<lambda>(res, pc). 2 \<le> pc" "(res, Suc (Suc 0))"] assms(2)
    by (simp add: sent_counted_def)
  show "duration_added (ts[i := (res, Suc (Suc 0))]) = duration_added ts"
    using sum_list_map_update[OF assms(1),
        of "\<lambda>(res, pc). if 3 \<le> pc then duration res else 0" "(res, Suc (Suc 0))"] assms(2)
    by (simp add: duration_added_def)
qed

lemma step_third:
  assumes "i < length ts" "ts ! i = (res, Suc (Suc 0))"
  shows "errs_counted (ts[i := (res, Suc (Suc (Suc 0)))]) = errs_counted ts"
    and "sent_counted (ts[i := (res, Suc (Suc (Suc 0)))]) = sent_counted ts"
    and "duration_added (ts[i := (res, Suc (Suc (Suc 0)))]) = duration_added ts + duration res"
proof -
  show "errs_counted (ts[i := (res, Suc (Suc (Suc 0)))]) = errs_counted ts"
    using assms unfolding errs_counted_def by (intro filter_update_same) simp_all
  show "sent_counted (ts[i := (res, Suc (Suc (Suc 0)))]) = sent_counted ts"
    using assms unfolding sent_counted_def by (intro filter_update_same) simp_all
  show "duration_added (ts[i := (res, Suc (Suc (Suc 0)))]) = duration_added ts + duration res"
    using sum_list_map_update[OF assms(1),
        of "\<lambda>(res, pc). if 3 \<le> pc then duration res else 0" "(res, Suc (Suc (Suc 0)))"] assms(2)
    by (simp add: duration_added_def)
qed

lemma aggregate_step_agree:
  assumes "counters_agree a"
  shows "counters_agree (aggregate_step a i)"
proof (cases "i < length (tasks a)")
  case False
  with assms show ?thesis by (simp add: aggregate_step_def)
next
  case True
  obtain res pc where t: "tasks a ! i = (res, pc)" by (cases "tasks a ! i")
  consider "pc = 0" | "pc = Suc 0" | "pc = Suc (Suc 0)" | "3 \<le> pc" by arith
  then show ?thesis
  proof cases
    case 1
    with True t assms step_first[of i "tasks a" res] show ?thesis
      by (simp add: aggregate_step_def counters_agree_def)
  next
    case 2
    with True t assms step_second[of i "tasks a" res] show ?thesis
      by (simp add: aggregate_step_def counters_agree_def)
  next
    case 3
    with True t assms step_third[of i "tasks a" res] show ?thesis
      by (simp add: aggregate_step_def counters_agree_def)
  next
    case 4
    with True t assms show ?thesis by (simp add: aggregate_step_def)
  qed
qed

lemma foldl_step_agree:
  "counters_agree a \<Longrightarrow> counters_agree (foldl aggregate_step a sched)"
  by (induction sched arbitrary: a) (simp_all add: aggregate_step_agree)

lemma aggregate_agree: "counters_agree (aggregate rs sched)"
  unfolding aggregate_def
  by (rule foldl_step_agree)
    (simp add: counters_agree_def errs_counted_def sent_counted_def duration_added_def
      filter_map comp_def sum_list_0 split_def)

lemma aggregate_step_outcomes: "map fst (tasks (aggregate_step a i)) = map fst (tasks a)"
proof (cases "i < length (tasks a)")
  case False
  then show ?thesis by (simp add: aggregate_step_def)
next
  case True
  obtain res pc where t: "tasks a ! i = (res, pc)" by (cases "tasks a ! i")
  have "(map fst (tasks a))[i := res] = map fst (tasks a)"
    using True t by (metis fst_conv list_update_id nth_map)
  with True t show ?thesis by (simp add: aggregate_step_def map_update)
qed

lemma foldl_step_outcomes: "map fst (tasks (foldl aggregate_step a sched)) = map fst (tasks a)"
  by (induction sched arbitrary: a) (simp_all add: aggregate_step_outcomes)

lemma aggregate_outcomes: "map fst (tasks (aggregate rs sched)) = rs"
  unfolding aggregate_def by (simp add: foldl_step_outcomes comp_def)

lemma joined_counted:
  assumes "list_all (\<lambda>(res, pc). pc = 3) ts"
  shows "errs_counted ts = length (filter (\<lambda>res. err res \<noteq> None) (map fst ts))"
    and "sent_counted ts = length (map fst ts)"
    and "duration_added ts = sum_list (map duration (map fst ts))"
  using assms
  by (induction ts) (auto simp: errs_counted_def sent_counted_def duration_added_def)

lemma errs_le_sent_pending:
  "errs_counted ts \<le>
     sent_counted ts + length (filter (\<lambda>(res, pc). pc = 1 \<and> err res \<noteq> None) ts)"
  by (induction ts) (auto simp: errs_counted_def sent_counted_def)

lemma counted_le_length: "errs_counted ts \<le> length ts" "sent_counted ts \<le> length ts"
  by (simp_all add: errs_counted_def sent_counted_def)

lemma aggregate_step_sent_mono:
  "sent_counted (tasks a) \<le> sent_counted (tasks (aggregate_step a i))"
proof (cases "i < length (tasks a)")
  case False
  then show ?thesis by (simp add: aggregate_step_def)
next
  case True
  obtain res pc where t: "tasks a ! i = (res, pc)" by (cases "tasks a ! i")
  from length_filter_update[OF True, of "\<lambda>(res, pc). 2 \<le> pc" "(res, pc + 1)"] t
  have "sent_counted (tasks a) \<le> sent_counted ((tasks a)[i := (res, pc + 1)])"
    by (simp add: sent_counted_def split: if_splits)
  with True t show ?thesis by (simp add: aggregate_step_def)
qed

lemma foldl_step_sent_mono:
  "sent_counted (tasks a) \<le> sent_counted (tasks (foldl aggregate_step a sched))"
proof (induction sched arbitrary: a)
  case Nil
  then show ?case by simp
next
  case (Cons i sched)
  from aggregate_step_sent_mono[of a i] Cons.IH[of "aggregate_step a i"]
  show ?case by simp
qed

lemma aggregate_prefix_sent_mono:
  "sent_counted (tasks (aggregate rs (take n sched))) \<le> sent_counted (tasks (aggregate rs sched))"
proof -
  have "aggregate rs sched =
      foldl aggregate_step (aggregate rs (take n sched)) (drop n sched)"
    unfolding aggregate_def by (simp only: foldl_append[symmetric] append_take_drop_id)
  then show ?thesis using foldl_step_sent_mono by simp
qed

lemma sum_list_sint:
  "sum_list (map duration rs) = (word_of_int (\<Sum>res\<leftarrow>rs. sint (duration res)) :: 64 word)"
  by (induction rs) simp_all

lemma processResponse_three_steps:
  assumes "i < length (tasks a)" "tasks a ! i = (res, 0)"
  shows "stats (foldl aggregate_step a [i, i, i]) = processResponse res (stats a)"
  using assms by (simp add: aggregate_step_def processResponse_def eval_nat_numeral)

text \<open>
  C2 (as amended). For fewer than \<open>2^63\<close> outcomes and any interleaving of the
  steps of their \<open>processResponse\<close> goroutines: once all have returned, the sent
  counter is the number of outcomes, the error counter the number of outcomes
  with an error, and the cumulative duration the sum of the durations (in int64
  arithmetic, and as an integer when that sum fits an int64); at every point of
  the run the errors are at most the sent count plus the number of goroutines
  that have counted their error and not yet their outcome, so \<open>errors \<le> sent\<close>
  holds whenever no goroutine is between those two steps; and the sent counter
  never decreases and never exceeds the number of outcomes.
\<close>

theorem aggregation_counting:
  assumes "length rs < 2 ^ 63"
  shows
    "(joined (aggregate rs sched) \<longrightarrow>
        sint (sentRequestCount (stats (aggregate rs sched))) = int (length rs) \<and>
        sint (errCount (stats (aggregate rs sched))) =
          int (length (filter (\<lambda>res. err res \<noteq> None) rs)) \<and>
        totalDuration (stats (aggregate rs sched)) = sum_list (map duration rs) \<and>
        (- (2 ^ 63) \<le> (\<Sum>res\<leftarrow>rs. sint (duration res)) \<and>
         (\<Sum>res\<leftarrow>rs. sint (duration res)) < 2 ^ 63 \<longrightarrow>
           sint (totalDuration (stats (aggregate rs sched))) =
             (\<Sum>res\<leftarrow>rs. sint (duration res)))) \<and>
     sint (errCount (stats (aggregate rs sched))) \<le>
       sint (sentRequestCount (stats (aggregate rs sched))) +
       int (err_pending (aggregate rs sched)) \<and>
     (err_pending (aggregate rs sched) = 0 \<longrightarrow>
        sint (errCount (stats (aggregate rs sched))) \<le>
          sint (sentRequestCount (stats (aggregate rs sched)))) \<and>
     0 \<le> sint (sentRequestCount (stats (aggregate rs sched))) \<and>
     sint (sentRequestCount (stats (aggregate rs sched))) \<le> int (length rs) \<and>
     sint (sentRequestCount (stats (aggregate rs (take n sched)))) \<le>
       sint (sentRequestCount (stats (aggregate rs sched)))"
proof -
  let ?a = "aggregate rs sched" and ?b = "aggregate rs (take n sched)"
  have len: "length (tasks ?a) = length rs" "length (tasks ?b) = length rs"
    using aggregate_outcomes[of rs sched] aggregate_outcomes[of rs "take n sched"]
    by (metis length_map)+
  have bound: "sent_counted (tasks ?a) < 2 ^ 63" "errs_counted (tasks ?a) < 2 ^ 63"
    "sent_counted (tasks ?b) < 2 ^ 63"
    using counted_le_length[of "tasks ?a"] counted_le_length(2)[of "tasks ?b"] len assms
    by simp_all
  have sent: "sint (sentRequestCount (stats ?a)) = int (sent_counted (tasks ?a))"
    using aggregate_agree[of rs sched] bound(1)
    by (simp add: counters_agree_def sint_of_nat_64)
  have errs: "sint (errCount (stats ?a)) = int (errs_counted (tasks ?a))"
    using aggregate_agree[of rs sched] bound(2)
    by (simp add: counters_agree_def sint_of_nat_64)
  have dur: "totalDuration (stats ?a) = duration_added (tasks ?a)"
    using aggregate_agree[of rs sched] by (simp add: counters_agree_def)
  have sent_b: "sint (sentRequestCount (stats ?b)) = int (sent_counted (tasks ?b))"
    using aggregate_agree[of rs "take n sched"] bound(3)
    by (simp add: counters_agree_def sint_of_nat_64)
  have final: "sint (sentRequestCount (stats ?a)) = int (length rs) \<and>
      sint (errCount (stats ?a)) = int (length (filter (\<lambda>res. err res \<noteq> None) rs)) \<and>
      totalDuration (stats ?a) = sum_list (map duration rs) \<and>
      (- (2 ^ 63) \<le> (\<Sum>res\<leftarrow>rs. sint (duration res)) \<and>
       (\<Sum>res\<leftarrow>rs. sint (duration res)) < 2 ^ 63 \<longrightarrow>
         sint (totalDuration (stats ?a)) = (\<Sum>res\<leftarrow>rs. sint (duration res)))"
    if j: "joined ?a"
  proof -
    from j have all: "list_all (\<lambda>(res, pc). pc = 3) (tasks ?a)"
      by (simp add: joined_def)
    have total: "totalDuration (stats ?a) = sum_list (map duration rs)"
      using joined_counted(3)[OF all] dur by (simp only: aggregate_outcomes)
    have "sint (totalDuration (stats ?a)) = (\<Sum>res\<leftarrow>rs. sint (duration res))"
      if "- (2 ^ 63) \<le> (\<Sum>res\<leftarrow>rs. sint (duration res)) \<and>
          (\<Sum>res\<leftarrow>rs. sint (duration res)) < 2 ^ 63"
    proof -
      have "signed_take_bit 63 (\<Sum>res\<leftarrow>rs. sint (duration res)) =
          (\<Sum>res\<leftarrow>rs. sint (duration res))"
        using that by (intro signed_take_bit_int_eq_self) simp_all
      then show ?thesis
        by (simp only: total sum_list_sint sint_sbintrunc') simp
    qed
    with total joined_counted(1,2)[OF all] sent errs show ?thesis
      by (simp only: aggregate_outcomes) simp
  qed
  have gap: "sint (errCount (stats ?a)) \<le>
      sint (sentRequestCount (stats ?a)) + int (err_pending ?a)"
    using errs_le_sent_pending[of "tasks ?a"] by (simp add: sent errs err_pending_def)
  have range: "0 \<le> sint (sentRequestCount (stats ?a))"
    "sint (sentRequestCount (stats ?a)) \<le> int (length rs)"
    using counted_le_length(2)[of "tasks ?a"] len by (simp_all add: sent)
  have mono: "sint (sentRequestCount (stats ?b)) \<le> sint (sentRequestCount (stats ?a))"
    using aggregate_prefix_sent_mono[of rs n sched] by (simp add: sent sent_b)
  have gap0: "err_pending ?a = 0 \<longrightarrow>
      sint (errCount (stats ?a)) \<le> sint (sentRequestCount (stats ?a))"
    using gap by simp
  from final gap gap0 range mono show ?thesis by blast
qed

lemma example_aggregation:
  "aggregate [timed_out, answered] [0, 1, 0, 1, 0, 1] =
     \<lparr>stats = \<lparr>errCount = 1, sentRequestCount = 2, totalDuration = 10025000000\<rparr>,
      tasks = [(timed_out, 3), (answered, 3)]\<rparr>"
  by (simp add: aggregate_def aggregate_step_def timed_out_def answered_def eval_nat_numeral)

theorem aggregation_counting_witness:
  "length [timed_out, answered] < 2 ^ 63 \<and>
   joined (aggregate [timed_out, answered] [0, 1, 0, 1, 0, 1]) \<and>
   - (2 ^ 63) \<le> (\<Sum>res\<leftarrow>[timed_out, answered]. sint (duration res)) \<and>
   (\<Sum>res\<leftarrow>[timed_out, answered]. sint (duration res)) < 2 ^ 63 \<and>
   err_pending (aggregate [timed_out, answered] [0, 1, 0, 1, 0, 1]) = 0 \<and>
   sint (sentRequestCount (stats (aggregate [timed_out, answered] [0, 1, 0, 1, 0, 1]))) = 2 \<and>
   sint (errCount (stats (aggregate [timed_out, answered] [0, 1, 0, 1, 0, 1]))) = 1 \<and>
   sint (totalDuration (stats (aggregate [timed_out, answered] [0, 1, 0, 1, 0, 1]))) =
     10025000000"
proof -
  have l: "length [timed_out, answered] < 2 ^ 63" by simp
  have j: "joined (aggregate [timed_out, answered] [0, 1, 0, 1, 0, 1])"
    by (simp only: example_aggregation) (simp add: joined_def)
  have p: "err_pending (aggregate [timed_out, answered] [0, 1, 0, 1, 0, 1]) = 0"
    by (simp only: example_aggregation) (simp add: err_pending_def)
  have d: "duration timed_out = 10000000000" "duration answered = 25000000"
    by (simp_all add: timed_out_def answered_def)
  have e: "length (filter (\<lambda>res. err res \<noteq> None) [timed_out, answered]) = 1"
    by (simp add: timed_out_def answered_def)
  show ?thesis
    using aggregation_counting [OF l, of "[0, 1, 0, 1, 0, 1]" 2] j p e
    by (simp add: d)
qed

text \<open>
  C2 as stated fails between the first two steps of one call: the first outcome
  of a run has an error, its goroutine has incremented \<open>errCount\<close> and not yet
  \<open>sentRequestsCount\<close>, and the errors exceed the sent count.
\<close>

theorem aggregation_counting_counterexample:
  "\<not> sint (errCount (stats (aggregate [timed_out] [0]))) \<le>
       sint (sentRequestCount (stats (aggregate [timed_out] [0])))"
  by (simp add: aggregate_def aggregate_step_def timed_out_def)

section \<open>Properties of the final report\<close>












text \<open>
  \<open>main\<close> itself waits for the cancellation and for the wait group, not for the
  loop: it can get past \<open>wg.Wait()\<close> while the loop is still running, and the
  loop can then receive an outcome and start a goroutine whose adds the report
  sees half done. Here the report has one error and no request.
\<close>

lemma report_before_loop_returns:
  "acts [Arrives timed_out, Cancels, MainCancelled, MainJoined, Receives, TaskSteps 0]
     ending_start =
     Some \<lparr>ctx_cancelled = True, loop_running = True, delivered = [], wg_tasks = 1,
           counters = \<lparr>errCount = 1, sentRequestCount = 0, totalDuration = 0\<rparr>,
           spawned = [(timed_out, 1)], main_at = AtReport\<rparr>"
  by (simp add: ending_start_def timed_out_def)





end
